theory Spec2Isabelle
  imports Complex_Main "HOL-Library.Word" "HOL-Library.List_Lexorder"
begin

section \<open>The shared fit contract\<close>

text \<open>
  Both reducers are subclasses of \<open>BaseAlgorithm\<close>, which stores the dataset in
  \<open>self.X\<close> and \<open>self.y\<close> before it calls the reducer's own \<open>_fit\<close>.  A
  dataset is a list of rows; row order is the index of an instance.
\<close>

record ('x, 'l) BaseAlgorithm =
  X :: "'x list"
  y :: "'l list"

datatype error = InvalidInput

text \<open>
  Modelled from the spec: \<open>BaseAlgorithm.fit\<close> (base.py is not among the sources).
  The spec says: "stores the dataset, runs the algorithm-specific selection procedure, and
  records the resulting surviving-index set. Fails if X and y have mismatched lengths or if
  X has zero rows."  The first argument is the reducer's \<open>_fit\<close>, the second the reducer
  object before the call.
\<close>

definition fit ::
  "(('x, 'l, 'm) BaseAlgorithm_scheme \<Rightarrow> 'r) \<Rightarrow> ('x, 'l, 'm) BaseAlgorithm_scheme
     \<Rightarrow> 'x list \<Rightarrow> 'l list \<Rightarrow> error + 'r" where
  "fit fit' self Xs ys =
     (if length Xs \<noteq> length ys \<or> Xs = [] then Inl InvalidInput
      else Inr (fit' (self\<lparr>X := Xs, y := ys\<rparr>)))"

section \<open>ICF: iterative case filtering (icf.py)\<close>

text \<open>
  A nearest-enemy distance is a float that starts as \<open>np.inf\<close>; the pairwise distances
  are finite floats.  Only their order is used, so a finite distance is a real number and
  \<open>np.inf\<close> is a value of its own.
\<close>

datatype enemy_distance = Fin real | Infinity

definition less_enemy :: "real \<Rightarrow> enemy_distance \<Rightarrow> bool" where
  "less_enemy d e = (case e of Infinity \<Rightarrow> True | Fin r \<Rightarrow> d < r)"

record ('x, 'l) ICF = "('x, 'l) BaseAlgorithm" +
  metric :: "'x \<Rightarrow> 'x \<Rightarrow> real"
  n_neighbors :: nat
  mask :: "bool list"
  distance_nearest_enemy :: "enemy_distance list"
  pairwise_distance :: "real list list"
  X' :: "'x list"
  y' :: "'l list"

text \<open>
  \<open>sklearn.metrics.pairwise_distances(X_, metric)\<close>: the matrix of the distances between
  every two rows.  The metric is a field of the reducer; here it is the distance function
  itself rather than its name.  On an empty \<open>X_\<close> (the pre-filter kept nothing) sklearn
  raises; the model has the empty matrix there and the loop stops after that pass.
\<close>

definition pairwise_distances :: "'x list \<Rightarrow> ('x \<Rightarrow> 'x \<Rightarrow> real) \<Rightarrow> real list list" where
  "pairwise_distances Xs m = map (\<lambda>a. map (\<lambda>b. m a b) Xs) Xs"

definition set_distance_nearest_enemy :: "('x, 'l) ICF \<Rightarrow> ('x, 'l) ICF" where
  "set_distance_nearest_enemy self =
     self\<lparr>distance_nearest_enemy :=
       map (\<lambda>idx.
             fold (\<lambda>idx2 cur.
                     if y' self ! idx \<noteq> y' self ! idx2
                        \<and> less_enemy (pairwise_distance self ! idx ! idx2) cur
                     then Fin (pairwise_distance self ! idx ! idx2) else cur)
                  [0..<length (X' self)] Infinity)
           [0..<length (X' self)]\<rparr>"

definition adaptable :: "('x, 'l) ICF \<Rightarrow> nat \<Rightarrow> nat \<Rightarrow> bool" where
  "adaptable self idx idx2 =
     less_enemy (pairwise_distance self ! idx ! idx2) (distance_nearest_enemy self ! idx2)"

definition get_coverage :: "('x, 'l) ICF \<Rightarrow> nat \<Rightarrow> nat" where
  "get_coverage self idx =
     fold (\<lambda>idx2 len_coverage.
             if idx2 \<noteq> idx \<and> mask self ! idx2
             then (if adaptable self idx idx2 then len_coverage + 1 else len_coverage)
             else len_coverage)
          [0..<length (X' self)] 0"

definition get_reachable :: "('x, 'l) ICF \<Rightarrow> nat \<Rightarrow> nat" where
  "get_reachable self idx =
     fold (\<lambda>idx2 len_reachable.
             if idx2 \<noteq> idx \<and> mask self ! idx2
             then (if adaptable self idx2 idx then len_reachable + 1 else len_reachable)
             else len_reachable)
          [0..<length (X' self)] 0"

text \<open>
  One pass of the \<open>while progress\<close> loop of \<open>_fit\<close>.  \<open>pass_start\<close> is lines 100
  to 107: the reducer after \<open>X_\<close>, \<open>y_\<close>, the distance matrix, the nearest-enemy
  distances and an all-true mask have been stored.  \<open>removal_loop\<close> is the loop of lines
  117 to 120.  \<open>fit_pass\<close> is the whole body: the reducer after the pass, the new \<open>S\<close> and
  the new \<open>progress\<close>.  \<open>S[self.mask]\<close> keeps the entries of \<open>S\<close> whose mask is true.
\<close>

definition pass_start :: "('x, 'l) ICF \<Rightarrow> nat list \<Rightarrow> ('x, 'l) ICF" where
  "pass_start self S =
     (let self = self\<lparr>X' := map (\<lambda>s. X self ! s) S, y' := map (\<lambda>s. y self ! s) S\<rparr>;
          self = self\<lparr>pairwise_distance := pairwise_distances (X' self) (metric self)\<rparr>;
          self = set_distance_nearest_enemy self
      in self\<lparr>mask := replicate (length (X' self)) True\<rparr>)"

definition removal_loop ::
  "nat list \<Rightarrow> nat list \<Rightarrow> ('x, 'l) ICF \<Rightarrow> ('x, 'l) ICF \<times> bool" where
  "removal_loop reachable coverage self =
     fold (\<lambda>idx (self, progress).
             if mask self ! idx \<and> reachable ! idx > coverage ! idx
             then (self\<lparr>mask := (mask self)[idx := False]\<rparr>, True)
             else (self, progress))
          [0..<length (X' self)] (self, False)"

definition fit_pass :: "('x, 'l) ICF \<Rightarrow> nat list \<Rightarrow> ('x, 'l) ICF \<times> nat list \<times> bool" where
  "fit_pass self S =
     (let self = pass_start self S;
          coverage = map (\<lambda>idx. if mask self ! idx then get_coverage self idx else 0)
                         [0..<length (X' self)];
          reachable = map (\<lambda>idx. if mask self ! idx then get_reachable self idx else 0)
                          [0..<length (X' self)];
          (self, progress) = removal_loop reachable coverage self
      in (self, map fst (filter snd (zip S (mask self))), progress))"

subsection \<open>What the spec calls distance, nearest enemy, coverage and reachability\<close>

text \<open>
  These follow the words of the spec, over the surviving set \<open>S\<close> (a list of row indices
  of the dataset); an instance is named by its position in \<open>S\<close>.  They are compared with
  the code below.
\<close>

definition distance :: "('x, 'l) ICF \<Rightarrow> nat list \<Rightarrow> nat \<Rightarrow> nat \<Rightarrow> real" where
  "distance self S i j = metric self (X self ! (S ! i)) (X self ! (S ! j))"

definition enemy_distances :: "('x, 'l) ICF \<Rightarrow> nat list \<Rightarrow> nat \<Rightarrow> real list" where
  "enemy_distances self S i =
     map (distance self S i) (filter (\<lambda>j. y self ! (S ! i) \<noteq> y self ! (S ! j)) [0..<length S])"

definition nearest_enemy_distance :: "('x, 'l) ICF \<Rightarrow> nat list \<Rightarrow> nat \<Rightarrow> enemy_distance" where
  "nearest_enemy_distance self S i =
     (if enemy_distances self S i = [] then Infinity
      else Fin (Min (set (enemy_distances self S i))))"

definition coverage_count :: "('x, 'l) ICF \<Rightarrow> nat list \<Rightarrow> nat \<Rightarrow> nat" where
  "coverage_count self S i =
     length (filter (\<lambda>j. j \<noteq> i \<and> less_enemy (distance self S i j) (nearest_enemy_distance self S j))
                    [0..<length S])"

definition reachability_count :: "('x, 'l) ICF \<Rightarrow> nat list \<Rightarrow> nat \<Rightarrow> nat" where
  "reachability_count self S i =
     length (filter (\<lambda>j. j \<noteq> i \<and> less_enemy (distance self S j i) (nearest_enemy_distance self S i))
                    [0..<length S])"

definition removed_in_pass :: "('x, 'l) ICF \<Rightarrow> nat list \<Rightarrow> nat \<Rightarrow> bool" where
  "removed_in_pass self S i = (reachability_count self S i > coverage_count self S i)"

subsection \<open>The code computes what the spec describes\<close>

lemma less_enemy_simps [simp]:
  "less_enemy d Infinity = True" "less_enemy d (Fin r) = (d < r)"
  by (simp_all add: less_enemy_def)

lemma fold_count:
  "fold (\<lambda>j c. if Q j then (if P j then c + 1 else c) else c) xs (c0::nat)
     = c0 + length (filter (\<lambda>j. Q j \<and> P j) xs)"
  by (induction xs arbitrary: c0) auto

lemma Min_insert_insert:
  "finite A \<Longrightarrow> Min (insert (a::real) (insert b A)) = Min (insert (min a b) A)"
  by (cases "A = {}") (auto simp: min.assoc)

lemma fold_enemy_Fin:
  "fold (\<lambda>j cur. if P j \<and> less_enemy (d j) cur then Fin (d j) else cur) xs (Fin r)
     = Fin (Min (insert r (set (map d (filter P xs)))))"
proof (induction xs arbitrary: r)
  case Nil
  show ?case by simp
next
  case (Cons x xs)
  show ?case
  proof (cases "P x")
    case True
    have m: "(if d x < r then d x else r) = min r (d x)" by (simp add: min_def)
    have "fold (\<lambda>j cur. if P j \<and> less_enemy (d j) cur then Fin (d j) else cur) (x # xs) (Fin r)
        = fold (\<lambda>j cur. if P j \<and> less_enemy (d j) cur then Fin (d j) else cur) xs (Fin (min r (d x)))"
      using True by (simp add: min_def)
    also have "\<dots> = Fin (Min (insert (min r (d x)) (set (map d (filter P xs)))))"
      by (rule Cons.IH)
    also have "\<dots> = Fin (Min (insert r (set (map d (filter P (x # xs))))))"
      using True Min_insert_insert [of "set (map d (filter P xs))" r "d x"] by simp
    finally show ?thesis .
  next
    case False
    then show ?thesis using Cons.IH [of r] by simp
  qed
qed

lemma fold_enemy_Infinity:
  "fold (\<lambda>j cur. if P j \<and> less_enemy (d j) cur then Fin (d j) else cur) xs Infinity
     = (if map d (filter P xs) = [] then Infinity else Fin (Min (set (map d (filter P xs)))))"
proof (induction xs)
  case Nil
  show ?case by simp
next
  case (Cons x xs)
  show ?case
  proof (cases "P x")
    case True
    then show ?thesis by (simp add: fold_enemy_Fin)
  next
    case False
    then show ?thesis using Cons.IH by simp
  qed
qed

lemma pass_start_fields [simp]:
  "X (pass_start self S) = X self"
  "y (pass_start self S) = y self"
  "metric (pass_start self S) = metric self"
  "n_neighbors (pass_start self S) = n_neighbors self"
  "X' (pass_start self S) = map (\<lambda>s. X self ! s) S"
  "y' (pass_start self S) = map (\<lambda>s. y self ! s) S"
  "mask (pass_start self S) = replicate (length S) True"
  by (simp_all add: pass_start_def set_distance_nearest_enemy_def Let_def)

lemma pass_start_pairwise:
  "i < length S \<Longrightarrow> j < length S \<Longrightarrow>
     pairwise_distance (pass_start self S) ! i ! j = distance self S i j"
  by (simp add: pass_start_def set_distance_nearest_enemy_def Let_def pairwise_distances_def
        distance_def)

lemma set_distance_nearest_enemy_nth:
  assumes "i < length (X' s)"
  shows "distance_nearest_enemy (set_distance_nearest_enemy s) ! i
           = (if map (\<lambda>j. pairwise_distance s ! i ! j)
                    (filter (\<lambda>j. y' s ! i \<noteq> y' s ! j) [0..<length (X' s)]) = []
              then Infinity
              else Fin (Min (set (map (\<lambda>j. pairwise_distance s ! i ! j)
                    (filter (\<lambda>j. y' s ! i \<noteq> y' s ! j) [0..<length (X' s)])))))"
proof -
  have "distance_nearest_enemy (set_distance_nearest_enemy s) ! i
          = fold (\<lambda>j cur. if y' s ! i \<noteq> y' s ! j \<and> less_enemy (pairwise_distance s ! i ! j) cur
                           then Fin (pairwise_distance s ! i ! j) else cur)
              [0..<length (X' s)] Infinity"
    unfolding set_distance_nearest_enemy_def using assms by (simp cong: if_cong)
  then show ?thesis
    by (simp only: fold_enemy_Infinity)
qed

lemma pass_start_nearest_enemy:
  assumes "i < length S"
  shows "distance_nearest_enemy (pass_start self S) ! i = nearest_enemy_distance self S i"
proof -
  let ?P = "\<lambda>j. y self ! (S ! i) \<noteq> y self ! (S ! j)"
  let ?s = "self\<lparr>X' := map (\<lambda>s. X self ! s) S, y' := map (\<lambda>s. y self ! s) S,
                  pairwise_distance := pairwise_distances (map (\<lambda>s. X self ! s) S) (metric self)\<rparr>"
  have f: "filter (\<lambda>j. y' ?s ! i \<noteq> y' ?s ! j) [0..<length (X' ?s)] = filter ?P [0..<length S]"
    using assms by (simp, intro filter_cong) auto
  have m: "map (\<lambda>j. pairwise_distance ?s ! i ! j) (filter ?P [0..<length S])
             = enemy_distances self S i"
    unfolding enemy_distances_def
    using assms by (intro map_cong) (auto simp: pairwise_distances_def distance_def)
  have "distance_nearest_enemy (pass_start self S) ! i
          = distance_nearest_enemy (set_distance_nearest_enemy ?s) ! i"
    by (simp add: pass_start_def Let_def)
  also have "\<dots> = nearest_enemy_distance self S i"
    unfolding nearest_enemy_distance_def
    using assms by (subst set_distance_nearest_enemy_nth) (simp_all only: f m, simp)
  finally show ?thesis .
qed

lemma pass_start_adaptable:
  "i < length S \<Longrightarrow> j < length S \<Longrightarrow>
     adaptable (pass_start self S) i j
       = less_enemy (distance self S i j) (nearest_enemy_distance self S j)"
  by (simp add: adaptable_def pass_start_pairwise pass_start_nearest_enemy)

lemma pass_start_coverage:
  assumes "i < length S"
  shows "get_coverage (pass_start self S) i = coverage_count self S i"
proof -
  have "get_coverage (pass_start self S) i
          = length (filter (\<lambda>j. (j \<noteq> i \<and> replicate (length S) True ! j)
                                  \<and> adaptable (pass_start self S) i j) [0..<length S])"
    by (simp add: get_coverage_def fold_count)
  also have "\<dots> = coverage_count self S i"
    unfolding coverage_count_def using assms
    by (intro arg_cong [where f = length] filter_cong) (auto simp: pass_start_adaptable)
  finally show ?thesis .
qed

lemma pass_start_reachable:
  assumes "i < length S"
  shows "get_reachable (pass_start self S) i = reachability_count self S i"
proof -
  have "get_reachable (pass_start self S) i
          = length (filter (\<lambda>j. (j \<noteq> i \<and> replicate (length S) True ! j)
                                  \<and> adaptable (pass_start self S) j i) [0..<length S])"
    by (simp add: get_reachable_def fold_count)
  also have "\<dots> = reachability_count self S i"
    unfolding reachability_count_def using assms
    by (intro arg_cong [where f = length] filter_cong) (auto simp: pass_start_adaptable)
  finally show ?thesis .
qed

lemma removal_fold:
  assumes "mask s0 = replicate n True" and "k \<le> n"
  shows "fold (\<lambda>idx (self, progress).
                 if mask self ! idx \<and> R idx
                 then (self\<lparr>mask := (mask self)[idx := False]\<rparr>, True)
                 else (self, progress))
              [0..<k] (s0, False)
           = (s0\<lparr>mask := map (\<lambda>i. i < k \<longrightarrow> \<not> R i) [0..<n]\<rparr>, \<exists>i<k. R i)"
  using assms(2)
proof (induction k)
  case 0
  have "map (\<lambda>i. True) [0..<n] = mask s0"
    using assms(1) by (simp add: map_replicate_const)
  then show ?case by simp
next
  case (Suc k)
  then have kn: "k < n" by simp
  have upd: "(map (\<lambda>i. i < k \<longrightarrow> \<not> R i) [0..<n])[k := False]
               = map (\<lambda>i. i < Suc k \<longrightarrow> \<not> R i) [0..<n]" if "R k"
    using that kn by (intro nth_equalityI) (auto simp: nth_list_update less_Suc_eq)
  have same: "map (\<lambda>i. i < k \<longrightarrow> \<not> R i) [0..<n]
               = map (\<lambda>i. i < Suc k \<longrightarrow> \<not> R i) [0..<n]" if "\<not> R k"
    using that by (intro map_cong) (auto simp: less_Suc_eq)
  have ex: "(\<exists>i<Suc k. R i) = ((\<exists>i<k. R i) \<or> R k)"
    by (auto simp: less_Suc_eq)
  show ?case
    using Suc kn by (cases "R k") (simp_all add: upd same ex)
qed

lemma zip_mask:
  "map fst (filter snd (zip S (map f [0..<length S])))
     = map (\<lambda>i. S ! i) (filter f [0..<length S])"
proof -
  have "zip S (map f [0..<length S]) = map (\<lambda>i. (S ! i, f i)) [0..<length S]"
    by (intro nth_equalityI) auto
  then show ?thesis
    by (simp add: filter_map comp_def)
qed

lemma removal_loop_pass_start:
  "removal_loop
      (map (\<lambda>idx. if mask (pass_start self S) ! idx then get_reachable (pass_start self S) idx else 0)
           [0..<length (X' (pass_start self S))])
      (map (\<lambda>idx. if mask (pass_start self S) ! idx then get_coverage (pass_start self S) idx else 0)
           [0..<length (X' (pass_start self S))])
      (pass_start self S)
     = ((pass_start self S)\<lparr>mask := map (\<lambda>i. \<not> removed_in_pass self S i) [0..<length S]\<rparr>,
        \<exists>i<length S. removed_in_pass self S i)"
proof -
  let ?s = "pass_start self S"
  let ?cov = "map (\<lambda>idx. if mask ?s ! idx then get_coverage ?s idx else 0) [0..<length (X' ?s)]"
  let ?rea = "map (\<lambda>idx. if mask ?s ! idx then get_reachable ?s idx else 0) [0..<length (X' ?s)]"
  let ?R = "\<lambda>i. ?rea ! i > ?cov ! i"
  have n: "length (X' ?s) = length S" by simp
  have R: "?R i = removed_in_pass self S i" if "i < length S" for i
    using that by (simp add: removed_in_pass_def pass_start_coverage pass_start_reachable)
  have "removal_loop ?rea ?cov ?s
          = (?s\<lparr>mask := map (\<lambda>i. i < length S \<longrightarrow> \<not> ?R i) [0..<length S]\<rparr>,
             \<exists>i<length S. ?R i)"
    unfolding removal_loop_def n
    by (rule removal_fold [where n = "length S"]) simp_all
  moreover have "map (\<lambda>i. i < length S \<longrightarrow> \<not> ?R i) [0..<length S]
             = map (\<lambda>i. \<not> removed_in_pass self S i) [0..<length S]"
    using R by (intro map_cong) auto
  moreover have "(\<exists>i<length S. ?R i) = (\<exists>i<length S. removed_in_pass self S i)"
    using R by blast
  ultimately show ?thesis by (simp only:)
qed

lemma fit_pass_eq:
  "fit_pass self S
     = ((pass_start self S)\<lparr>mask := map (\<lambda>i. \<not> removed_in_pass self S i) [0..<length S]\<rparr>,
        map (\<lambda>i. S ! i) (filter (\<lambda>i. \<not> removed_in_pass self S i) [0..<length S]),
        \<exists>i<length S. removed_in_pass self S i)"
  unfolding fit_pass_def Let_def removal_loop_pass_start
  by (simp add: zip_mask)

lemma count_sum: "length (filter P [0..<n]) = (\<Sum>j<n. if P j then 1 else 0)"
  by (induction n) auto

lemma coverage_reachability_sum:
  "(\<Sum>i<length S. coverage_count self S i) = (\<Sum>i<length S. reachability_count self S i)"
proof -
  let ?A = "\<lambda>i j. less_enemy (distance self S i j) (nearest_enemy_distance self S j)"
  have "(\<Sum>i<length S. coverage_count self S i)
          = (\<Sum>i<length S. \<Sum>j<length S. if j \<noteq> i \<and> ?A i j then 1 else 0)"
    by (simp add: coverage_count_def count_sum)
  also have "\<dots> = (\<Sum>j<length S. \<Sum>i<length S. if j \<noteq> i \<and> ?A i j then 1 else 0)"
    by (rule sum.swap)
  also have "\<dots> = (\<Sum>j<length S. \<Sum>i<length S. if i \<noteq> j \<and> ?A i j then 1 else 0)"
    by (intro sum.cong refl) auto
  also have "\<dots> = (\<Sum>i<length S. reachability_count self S i)"
    by (simp add: reachability_count_def count_sum)
  finally show ?thesis .
qed

lemma some_instance_kept:
  assumes "S \<noteq> []"
  shows "\<exists>i<length S. \<not> removed_in_pass self S i"
proof (rule ccontr)
  assume "\<not> ?thesis"
  then have "\<forall>i\<in>{..<length S}. coverage_count self S i < reachability_count self S i"
    by (simp add: removed_in_pass_def)
  moreover have "{..<length S} \<noteq> {}" using assms by auto
  ultimately have "(\<Sum>i<length S. coverage_count self S i)
                     < (\<Sum>i<length S. reachability_count self S i)"
    by (intro sum_strict_mono) auto
  then show False by (simp add: coverage_reachability_sum)
qed

lemma length_filter_upt_less:
  assumes "i < n" and "\<not> P i"
  shows "length (filter P [0..<n]) < n"
proof -
  have "length (filter P [0..<n]) < length [0..<n]"
    by (rule length_filter_less [of i]) (use assms in auto)
  then show ?thesis by simp
qed

lemma fit_pass_shrinks:
  assumes "fit_pass self S = (self', S', True)"
  shows "length S' < length S"
proof -
  from assms obtain i where i: "i < length S" "removed_in_pass self S i"
    and S': "S' = map (\<lambda>i. S ! i) (filter (\<lambda>i. \<not> removed_in_pass self S i) [0..<length S])"
    by (auto simp: fit_pass_eq)
  show ?thesis
    unfolding S' using length_filter_upt_less [of i "length S" "\<lambda>i. \<not> removed_in_pass self S i"] i
    by simp
qed

lemma fit_pass_length: "length (fst (snd (fit_pass self S))) \<le> length S"
proof -
  have "length (filter (\<lambda>i. \<not> removed_in_pass self S i) [0..<length S]) \<le> length [0..<length S]"
    by (rule length_filter_le)
  then show ?thesis by (simp add: fit_pass_eq)
qed

lemma fit_pass_no_progress:
  assumes "fit_pass self S = (self', S', False)"
  shows "S' = S"
proof -
  from assms have all: "\<forall>i<length S. \<not> removed_in_pass self S i"
    and S': "S' = map (\<lambda>i. S ! i) (filter (\<lambda>i. \<not> removed_in_pass self S i) [0..<length S])"
    by (auto simp: fit_pass_eq)
  have "filter (\<lambda>i. \<not> removed_in_pass self S i) [0..<length S] = [0..<length S]"
    using all by (intro filter_True) auto
  then show ?thesis
    unfolding S' by (simp add: map_nth)
qed

lemma fit_pass_nonempty:
  assumes "S \<noteq> []"
  shows "fst (snd (fit_pass self S)) \<noteq> []"
proof -
  obtain i where "i < length S" "\<not> removed_in_pass self S i"
    using some_instance_kept [OF assms] by blast
  then have "i \<in> set (filter (\<lambda>i. \<not> removed_in_pass self S i) [0..<length S])"
    by simp
  then have "filter (\<lambda>i. \<not> removed_in_pass self S i) [0..<length S] \<noteq> []"
    by (metis empty_iff empty_set)
  then show ?thesis by (simp add: fit_pass_eq)
qed

lemma fit_pass_sublist:
  "set (fst (snd (fit_pass self S))) \<subseteq> set S"
  "distinct S \<Longrightarrow> distinct (fst (snd (fit_pass self S)))"
proof -
  show "set (fst (snd (fit_pass self S))) \<subseteq> set S"
    by (auto simp: fit_pass_eq)
  assume "distinct S"
  then have "inj_on (\<lambda>i. S ! i) {0..<length S}"
    by (auto simp: inj_on_def nth_eq_iff_index_eq)
  then have "inj_on (\<lambda>i. S ! i) (set (filter (\<lambda>i. \<not> removed_in_pass self S i) [0..<length S]))"
    by (rule inj_on_subset) auto
  then show "distinct (fst (snd (fit_pass self S)))"
    by (simp add: fit_pass_eq distinct_map)
qed

subsection \<open>The loop of \<open>_fit\<close>\<close>

text \<open>
  The \<open>while progress\<close> loop, with a counter of the passes it has run (the counter is
  not in the source; it only observes the loop).  The loop goes round again exactly
  when a pass has removed an instance, so the length of \<open>S\<close> is a measure of its
  termination.  \<open>ENN_fit\<close> stands for \<open>ENN(n_neighbors).fit(X, y).sample_indices_\<close>:
  enn.py is not among the sources, so the pre-filter is an argument.
\<close>

function fit_loop ::
  "('x, 'l) ICF \<Rightarrow> nat list \<Rightarrow> nat \<Rightarrow> ('x, 'l) ICF \<times> nat list \<times> nat" where
  "fit_loop self S passes =
     (case fit_pass self S of
        (self', S', progress) \<Rightarrow>
          if progress then fit_loop self' S' (Suc passes) else (self', S', Suc passes))"
  by pat_completeness auto
termination
proof (relation "measure (\<lambda>(self, S, passes). length S)")
  show "wf (measure (\<lambda>(self :: ('x, 'l) ICF, S :: nat list, passes :: nat). length S))"
    by simp
next
  fix self :: "('x, 'l) ICF" and S passes x xa ya xb
  assume "(x, xa) = fit_pass self S" "(ya, xb) = xa" "xb"
  then have "fit_pass self S = (x, ya, True)" by simp
  then show "((x, ya, Suc passes), (self, S, passes)) \<in> measure (\<lambda>(self, S, passes). length S)"
    by (simp add: fit_pass_shrinks)
qed

definition ICF_fit ::
  "(nat \<Rightarrow> 'x list \<Rightarrow> 'l list \<Rightarrow> nat list) \<Rightarrow> ('x, 'l) ICF \<Rightarrow> nat list" where
  "ICF_fit ENN_fit self =
     (let S = ENN_fit (n_neighbors self) (X self) (y self)
      in fst (snd (fit_loop self S 0)))"

definition ICF_passes ::
  "(nat \<Rightarrow> 'x list \<Rightarrow> 'l list \<Rightarrow> nat list) \<Rightarrow> ('x, 'l) ICF \<Rightarrow> nat" where
  "ICF_passes ENN_fit self =
     (let S = ENN_fit (n_neighbors self) (X self) (y self)
      in snd (snd (fit_loop self S 0)))"

declare fit_loop.simps [simp del]

lemma removed_in_pass_cong:
  assumes "X s1 = X s2" "y s1 = y s2" "metric s1 = metric s2"
  shows "removed_in_pass s1 S i = removed_in_pass s2 S i"
  using assms
  by (simp add: removed_in_pass_def coverage_count_def reachability_count_def
        nearest_enemy_distance_def enemy_distances_def distance_def)

lemma fit_pass_cong:
  assumes "X s1 = X s2" "y s1 = y s2" "metric s1 = metric s2"
  shows "snd (fit_pass s1 S) = snd (fit_pass s2 S)"
  by (simp add: fit_pass_eq removed_in_pass_cong [OF assms])

lemma fit_pass_fields:
  "X (fst (fit_pass self S)) = X self"
  "y (fst (fit_pass self S)) = y self"
  "metric (fst (fit_pass self S)) = metric self"
  by (simp_all add: fit_pass_eq)

lemma fit_loop_induct [case_names pass]:
  assumes "\<And>self S passes.
             (\<And>self' S'. fit_pass self S = (self', S', True) \<Longrightarrow> P self' S' (Suc passes))
             \<Longrightarrow> P self S passes"
  shows "P self S passes"
proof (induction self S passes rule: fit_loop.induct)
  case (1 self S passes)
  show ?case
  proof (rule assms)
    fix self' S'
    assume a: "fit_pass self S = (self', S', True)"
    show "P self' S' (Suc passes)"
      by (rule "1.IH" [OF a [symmetric] refl]) simp
  qed
qed

lemma fit_loop_progress:
  "fit_pass self S = (self', S', True) \<Longrightarrow> fit_loop self S k = fit_loop self' S' (Suc k)"
  by (simp add: fit_loop.simps [of self])

lemma fit_loop_stop:
  "fit_pass self S = (self', S', False) \<Longrightarrow> fit_loop self S k = (self', S', Suc k)"
  by (simp add: fit_loop.simps [of self])

lemma fit_loop_cong:
  assumes "X s1 = X s2" "y s1 = y s2" "metric s1 = metric s2"
  shows "snd (fit_loop s1 S k) = snd (fit_loop s2 S k)"
  using assms
proof (induction s1 S k arbitrary: s2 rule: fit_loop_induct)
  case (pass self S passes)
  obtain a S' p where a: "fit_pass self S = (a, S', p)" by (cases "fit_pass self S") auto
  obtain b where b: "fit_pass s2 S = (b, S', p)"
    using fit_pass_cong [OF pass.prems, of S] a by (cases "fit_pass s2 S") auto
  have fa: "X a = X self" "y a = y self" "metric a = metric self"
    using fit_pass_fields [of self S] a by simp_all
  have fb: "X b = X s2" "y b = y s2" "metric b = metric s2"
    using fit_pass_fields [of s2 S] b by simp_all
  show ?case
  proof (cases p)
    case True
    have "snd (fit_loop a S' (Suc passes)) = snd (fit_loop b S' (Suc passes))"
      using pass.IH [of a S' b] a True fa fb pass.prems by simp
    then show ?thesis
      using a b True by (simp add: fit_loop_progress)
  next
    case False
    then show ?thesis
      using a b by (simp add: fit_loop_stop)
  qed
qed

lemma fit_loop_subset:
  "set (fst (snd (fit_loop self S k))) \<subseteq> set S"
proof (induction self S k rule: fit_loop_induct)
  case (pass self S passes)
  obtain a S' p where a: "fit_pass self S = (a, S', p)" by (cases "fit_pass self S") auto
  have sub: "set S' \<subseteq> set S" using fit_pass_sublist(1) [of self S] a by simp
  show ?case
  proof (cases p)
    case True
    have "set (fst (snd (fit_loop a S' (Suc passes)))) \<subseteq> set S'"
      using pass.IH [of a S'] a True by simp
    then show ?thesis
      using a True sub by (simp add: fit_loop_progress)
  next
    case False
    then show ?thesis using a sub by (simp add: fit_loop_stop)
  qed
qed

lemma fit_loop_distinct:
  "distinct S \<Longrightarrow> distinct (fst (snd (fit_loop self S k)))"
proof (induction self S k rule: fit_loop_induct)
  case (pass self S passes)
  obtain a S' p where a: "fit_pass self S = (a, S', p)" by (cases "fit_pass self S") auto
  have d: "distinct S'" using fit_pass_sublist(2) [of S self] a pass.prems by simp
  show ?case
  proof (cases p)
    case True
    have "distinct (fst (snd (fit_loop a S' (Suc passes))))"
      using pass.IH [of a S'] a True d by simp
    then show ?thesis
      using a True by (simp add: fit_loop_progress)
  next
    case False
    then show ?thesis using a d by (simp add: fit_loop_stop)
  qed
qed

lemma fit_loop_passes:
  "snd (snd (fit_loop self S k)) \<le> k + max 1 (length S)"
proof (induction self S k rule: fit_loop_induct)
  case (pass self S passes)
  obtain a S' p where a: "fit_pass self S = (a, S', p)" by (cases "fit_pass self S") auto
  show ?case
  proof (cases p)
    case True
    have less: "length S' < length S" using fit_pass_shrinks [of self S a S'] a True by simp
    then have "S \<noteq> []" by auto
    then have "S' \<noteq> []" using fit_pass_nonempty [of S self] a by simp
    then have pos: "1 \<le> length S'" by (cases S') auto
    have "snd (snd (fit_loop a S' (Suc passes))) \<le> Suc passes + max 1 (length S')"
      using pass.IH [of a S'] a True by simp
    then show ?thesis
      using a True less pos by (simp add: fit_loop_progress)
  next
    case False
    then show ?thesis using a by (simp add: fit_loop_stop)
  qed
qed

lemma fit_loop_fixed_point:
  "i < length (fst (snd (fit_loop self S k))) \<Longrightarrow>
     \<not> removed_in_pass self (fst (snd (fit_loop self S k))) i"
proof (induction self S k rule: fit_loop_induct)
  case (pass self S passes)
  obtain a S' p where a: "fit_pass self S = (a, S', p)" by (cases "fit_pass self S") auto
  have fa: "X a = X self" "y a = y self" "metric a = metric self"
    using fit_pass_fields [of self S] a by simp_all
  show ?case
  proof (cases p)
    case True
    have eq: "fit_loop self S passes = fit_loop a S' (Suc passes)"
      using a True by (simp add: fit_loop_progress)
    have "\<not> removed_in_pass a (fst (snd (fit_loop a S' (Suc passes)))) i"
      using pass.IH [of a S'] a True pass.prems eq by simp
    then show ?thesis
      unfolding eq using removed_in_pass_cong [OF fa] by simp
  next
    case False
    have eq: "fit_loop self S passes = (a, S', Suc passes)"
      using a False by (simp add: fit_loop_stop)
    have S': "S' = S" using fit_pass_no_progress [of self S a S'] a False by simp
    have "\<not> (\<exists>i<length S. removed_in_pass self S i)"
      using a False by (simp add: fit_pass_eq)
    then show ?thesis using pass.prems unfolding eq S' by simp
  qed
qed

section \<open>DRLSH (drlsh.py)\<close>

text \<open>
  The reducer object.  \<open>M\<close>, \<open>L\<close> and \<open>ST\<close> are Python integers (the counts \<open>M\<close> and
  \<open>L\<close> are shapes of arrays, hence natural numbers); \<open>W\<close> is a number.  A row of \<open>X\<close>
  is the feature vector of an instance.
\<close>

record 'l DRLSH = "(real list, 'l) BaseAlgorithm" +
  M :: nat
  L :: nat
  W :: real
  ST :: int

text \<open>
  The library functions \<open>_fit\<close> calls.  numpy's generator is one global state \<open>'g\<close>:
  \<open>np.random.seed(n)\<close> replaces it, \<open>np.random.normal(0, 1, (r, c))\<close> and
  \<open>np.random.rand(r, 1)\<close> read it and leave a new one.
  \<open>MinMaxScaler().fit_transform\<close> maps the feature matrix to the scaled one.
\<close>

record 'g library =
  random_seed :: "nat \<Rightarrow> 'g"
  random_normal :: "'g \<Rightarrow> nat \<Rightarrow> nat \<Rightarrow> real list list \<times> 'g"
  random_rand :: "'g \<Rightarrow> nat \<Rightarrow> real list \<times> 'g"
  MinMaxScaler_fit_transform :: "real list list \<Rightarrow> real list list"

text \<open>
  \<open>int(N ** (1 / 7))\<close>, line 22: the seventh root of the number of rows, rounded down.
  The model takes the root of the real number.  The source truncates a float power, which
  falls just below the root at an exact seventh power \<open>k ^ 7\<close> with \<open>k\<close> from 4 on and
  then gives \<open>k - 1\<close> (for 16384 rows the source has 3 where the model has 4); below 128
  rows both give 1.
\<close>

definition auto_M :: "nat \<Rightarrow> nat" where
  "auto_M N = nat \<lfloor>real N powr (1 / 7)\<rfloor>"

text \<open>\<open>np.unique\<close> of a one-dimensional array, or of the rows of a matrix: sorted, without
  repetitions.  \<open>np.setdiff1d(a, b)\<close>: the sorted unique values of \<open>a\<close> that are not in
  \<open>b\<close>.\<close>

definition np_unique :: "'a::linorder list \<Rightarrow> 'a list" where
  "np_unique xs = remdups (sort xs)"

definition setdiff1d :: "'a::linorder list \<Rightarrow> 'a list \<Rightarrow> 'a list" where
  "setdiff1d ar1 ar2 = filter (\<lambda>v. v \<notin> set ar2) (np_unique ar1)"

text \<open>
  \<open>.astype(np.int16)\<close> of a floored float: the number itself when it is in the range of
  a 16-bit integer.  Outside that range the model takes the low 16 bits, read as a signed
  number; numpy's cast agrees with that only up to a magnitude of \<open>2 ^ 31\<close> and gives 0
  beyond it.
\<close>

definition astype_int16 :: "int \<Rightarrow> int" where
  "astype_int16 v = sint (word_of_int v :: 16 word)"

definition dot :: "real list \<Rightarrow> real list \<Rightarrow> real" where
  "dot u v = sum_list (map (\<lambda>(p, q). p * q) (zip u v))"

text \<open>
  Line 43: \<open>Bucket_Index\<close> of one table, from its rows \<open>a[j]\<close> and \<open>b[j]\<close>: one row for
  each of the table's projections, one column for each instance.  The arithmetic is that
  of the real numbers.  For \<open>W = 0\<close> numpy divides by zero without raising (the quotient
  is infinite or not a number), which the division of HOL does not model: nothing below
  is stated for \<open>W = 0\<close>.
\<close>

definition Bucket_Index :: "real list list \<Rightarrow> real list \<Rightarrow> real \<Rightarrow> real list list \<Rightarrow> int list list" where
  "Bucket_Index aj bj w Data =
     map (\<lambda>(ak, bk). map (\<lambda>x. astype_int16 \<lfloor>(dot ak x + bk) / w\<rfloor>) Data) (zip aj bj)"

text \<open>
  Lines 48 to 60: the columns of \<open>BI\<close> are the signatures of the instances;
  \<open>Bucket_Index_uniqued\<close> holds the distinct signatures in sorted order, and \<open>np.where\<close>
  lists, instance by instance, the positions at which the instance's signature occurs there.
\<close>

definition Bucket_Index_Decimal :: "nat \<Rightarrow> int list list \<Rightarrow> int list" where
  "Bucket_Index_Decimal N BI =
     (let BI_T = map (\<lambda>n. map (\<lambda>row. row ! n) BI) [0..<N];
          Bucket_Index_uniqued_T = np_unique BI_T
      in concat (map (\<lambda>sig. map int (filter (\<lambda>u. Bucket_Index_uniqued_T ! u = sig)
                                            [0..<length Bucket_Index_uniqued_T]))
                     BI_T))"

text \<open>
  Lines 40 to 64: one row of bucket ids for each of the \<open>L\<close> tables, written over a row of
  zeros from position \<open>ss = 0\<close>.
\<close>

definition Bucket_Index_Decimal_All ::
  "nat \<Rightarrow> nat \<Rightarrow> real \<Rightarrow> real list list \<Rightarrow> real list \<Rightarrow> real list list \<Rightarrow> int list list" where
  "Bucket_Index_Decimal_All m l w a b Data =
     map (\<lambda>i. let BI = Bucket_Index (take m (drop (i * m) a)) (take m (drop (i * m) b)) w Data;
                  decimal = Bucket_Index_Decimal (length Data) BI
              in decimal @ drop (length decimal) (replicate (length Data) 0))
         [0..<l]"

subsection \<open>The scan of one class\<close>

record scan =
  All_Indexes :: "nat list"
  Bucket_Index_Decimal_All_Class :: "int list list"
  iii :: nat
  Temporal_Removed_Samples :: "nat list"
  Removed_Samples_Index_ALL :: "int list"

text \<open>Lines 79 to 83: for each column, in how many tables it has the bucket of the current
  sample.\<close>

definition Number_of_Common_Buckets :: "int list list \<Rightarrow> int list \<Rightarrow> nat \<Rightarrow> nat list" where
  "Number_of_Common_Buckets B cur n =
     map (\<lambda>c. length (filter (\<lambda>(row, v). row ! c = v) (zip B cur))) [0..<n]"

text \<open>
  Lines 75 to 92: the samples the current sample flags.  \<open>thr\<close> is
  \<open>Frequency_Neighbors_Threshold\<close>.  The column of the current sample holds \<open>-1\<close> while
  the counts are taken and is restored afterwards.
\<close>

definition Removed_Samples_Current :: "int \<Rightarrow> scan \<Rightarrow> nat list" where
  "Removed_Samples_Current thr s =
     (let Current_Sample_Bucket_Index_Decimal =
            map (\<lambda>row. row ! iii s) (Bucket_Index_Decimal_All_Class s);
          counts = Number_of_Common_Buckets
                     (map (\<lambda>row. row[iii s := - 1]) (Bucket_Index_Decimal_All_Class s))
                     Current_Sample_Bucket_Index_Decimal (length (All_Indexes s));
          Index_Neighbors = map (\<lambda>c. c > 0) counts;
          Frequency_Neighbors = map fst (filter snd (zip counts Index_Neighbors));
          uniqued_Neighbors = map fst (filter snd (zip (All_Indexes s) Index_Neighbors))
      in map fst (filter (\<lambda>(u, f). int f \<ge> thr) (zip uniqued_Neighbors Frequency_Neighbors)))"

text \<open>Lines 100 to 110: the restart of the window.  \<open>TRS\<close> is \<open>Data.shape[0] + 1\<close>.\<close>

definition restart :: "nat \<Rightarrow> scan \<Rightarrow> scan" where
  "restart TRS s =
     (let aa = map (\<lambda>v. v \<in> set (Temporal_Removed_Samples s)) (All_Indexes s);
          kept = map fst (filter (\<lambda>(v, a). \<not> a) (zip (All_Indexes s) aa));
          kept_columns = map (\<lambda>row. map fst (filter (\<lambda>(v, a). \<not> a) (zip row aa)))
                             (Bucket_Index_Decimal_All_Class s)
      in s\<lparr>All_Indexes := drop (iii s) kept,
            Bucket_Index_Decimal_All_Class := map (drop (iii s)) kept_columns,
            Temporal_Removed_Samples := [TRS],
            iii := 0\<rparr>)"

text \<open>The body of the \<open>while\<close> loop, lines 75 to 111.\<close>

definition scan_step :: "nat \<Rightarrow> int \<Rightarrow> scan \<Rightarrow> scan" where
  "scan_step TRS thr s =
     (let current = Removed_Samples_Current thr s;
          s = s\<lparr>Removed_Samples_Index_ALL := Removed_Samples_Index_ALL s @ map int current,
                 Temporal_Removed_Samples := Temporal_Removed_Samples s @ current\<rparr>;
          s = (if (length (All_Indexes s) > iii s + 1
                   \<and> Min (set (Temporal_Removed_Samples s)) \<le> All_Indexes s ! (iii s + 1))
                  \<or> iii s > 2000
               then restart TRS s else s)
      in s\<lparr>iii := iii s + 1\<rparr>)"

lemma kept_length:
  "length (map fst (filter (\<lambda>(v, a). \<not> a) (zip xs (map f xs)))) \<le> length xs"
proof -
  have "length (filter (\<lambda>(v, a). \<not> a) (zip xs (map f xs))) \<le> length (zip xs (map f xs))"
    by (rule length_filter_le)
  then show ?thesis by simp
qed

lemma restart_fields [simp]:
  "iii (restart TRS s) = 0"
  "Removed_Samples_Index_ALL (restart TRS s) = Removed_Samples_Index_ALL s"
  "length (Bucket_Index_Decimal_All_Class (restart TRS s)) = length (Bucket_Index_Decimal_All_Class s)"
  by (simp_all add: restart_def Let_def)

lemma restart_length:
  "length (All_Indexes (restart TRS s)) \<le> length (All_Indexes s) - iii s"
  using kept_length [of "All_Indexes s" "\<lambda>v. v \<in> set (Temporal_Removed_Samples s)"]
  by (simp add: restart_def Let_def)

lemma scan_step_measure:
  assumes "iii s < length (All_Indexes s)"
  shows "length (All_Indexes (scan_step TRS thr s)) - iii (scan_step TRS thr s)
           < length (All_Indexes s) - iii s"
proof -
  let ?s = "s\<lparr>Removed_Samples_Index_ALL :=
                 Removed_Samples_Index_ALL s @ map int (Removed_Samples_Current thr s),
               Temporal_Removed_Samples :=
                 Temporal_Removed_Samples s @ Removed_Samples_Current thr s\<rparr>"
  have "length (All_Indexes (restart TRS ?s)) \<le> length (All_Indexes s) - iii s"
    using restart_length [of TRS ?s] by simp
  then have "length (All_Indexes (restart TRS ?s)) - Suc 0 < length (All_Indexes s) - iii s"
    using assms by arith
  moreover have "length (All_Indexes s) - Suc (iii s) < length (All_Indexes s) - iii s"
    using assms by arith
  ultimately show ?thesis
    unfolding scan_step_def Let_def by simp
qed

function scan_loop :: "nat \<Rightarrow> int \<Rightarrow> scan \<Rightarrow> scan" where
  "scan_loop TRS thr s =
     (if iii s < length (All_Indexes s) then scan_loop TRS thr (scan_step TRS thr s) else s)"
  by pat_completeness auto
termination
  by (relation "measure (\<lambda>(TRS, thr, s). length (All_Indexes s) - iii s)")
    (simp_all add: scan_step_measure)

declare scan_loop.simps [simp del]


text \<open>
  Lines 68 to 111: the scan of the class \<open>classID\<close>, from the samples flagged so far to
  the samples flagged after it.  \<open>N\<close> is \<open>Data.shape[0]\<close>, \<open>labels\<close> is the last column
  of \<open>Data\<close> and \<open>B\<close> is \<open>Bucket_Index_Decimal_All\<close>.
\<close>

definition class_start :: "nat \<Rightarrow> int list list \<Rightarrow> 'l list \<Rightarrow> int list \<Rightarrow> 'l \<Rightarrow> scan" where
  "class_start N B labels removed classID =
     (let indexes = filter (\<lambda>i. labels ! i = classID) [0..<N]
      in \<lparr>All_Indexes = indexes,
          Bucket_Index_Decimal_All_Class = map (\<lambda>row. map (\<lambda>i. row ! i) indexes) B,
          iii = 0,
          Temporal_Removed_Samples = [N + 1],
          Removed_Samples_Index_ALL = removed\<rparr>)"

definition class_scan :: "nat \<Rightarrow> int \<Rightarrow> int list list \<Rightarrow> 'l list \<Rightarrow> 'l \<Rightarrow> int list \<Rightarrow> int list" where
  "class_scan N thr B labels classID removed =
     Removed_Samples_Index_ALL (scan_loop (N + 1) thr (class_start N B labels removed classID))"

subsection \<open>\<open>_fit\<close>\<close>

text \<open>
  \<open>hash_tables\<close> is lines 22 to 64: the reducer with \<open>M\<close> overwritten, the matrix
  \<open>Bucket_Index_Decimal_All\<close> and the state of numpy's generator afterwards.  The number
  of features is the length of a row of \<open>X\<close>.
\<close>

definition hash_tables ::
  "'g library \<Rightarrow> 'l DRLSH \<Rightarrow> 'l DRLSH \<times> int list list \<times> 'g" where
  "hash_tables lib self =
     (let self = self\<lparr>M := auto_M (length (X self))\<rparr>;
          Data = MinMaxScaler_fit_transform lib (X self);
          Dimension = (case X self of [] \<Rightarrow> 0 | row # _ \<Rightarrow> length row);
          g = random_seed lib 0;
          (a, g) = random_normal lib g (M self * L self) Dimension;
          (r, g) = random_rand lib g (M self * L self);
          b = map (\<lambda>v. W self * v) r
      in (self, Bucket_Index_Decimal_All (M self) (L self) (W self) a b Data, g))"

text \<open>Lines 66 to 111: \<open>Removed_Samples_Index_ALL\<close> after the scans of all classes.\<close>

definition flagged :: "'g library \<Rightarrow> ('l::linorder) DRLSH \<Rightarrow> int list" where
  "flagged lib self =
     (let Classes = np_unique (y self);
          B = fst (snd (hash_tables lib self))
      in fold (class_scan (length (X self)) (ST self) B (y self)) Classes [])"

text \<open>
  \<open>_fit\<close>, with the state \<open>g\<close> of numpy's generator at the call: the selected indices,
  the reducer and the generator afterwards.
\<close>

definition DRLSH_fit ::
  "'g library \<Rightarrow> 'g \<Rightarrow> ('l::linorder) DRLSH \<Rightarrow> int list \<times> 'l DRLSH \<times> 'g" where
  "DRLSH_fit lib g self =
     (let (self', B, g) = hash_tables lib self;
          removed = np_unique (flagged lib self);
          removed = filter (\<lambda>v. v \<noteq> - 1) removed;
          Selected_Data_Index = setdiff1d (map int [0..<length (X self)]) removed
      in (Selected_Data_Index, self', g))"

lemma auto_M_bounds:
  assumes "1 \<le> N"
  shows "auto_M N ^ 7 \<le> N" and "N < (auto_M N + 1) ^ 7"
proof -
  let ?x = "real N powr (1 / 7)"
  have x0: "0 \<le> ?x" by simp
  have x7: "?x ^ 7 = real N"
  proof -
    have pos: "0 < ?x" using assms by simp
    have "?x powr real (7::nat) = ?x ^ 7" using pos by (rule powr_realpow)
    moreover have "?x powr real (7::nat) = real N powr (1 / 7 * real (7::nat))"
      by (rule powr_powr)
    moreover have "real N powr (1 / 7 * real (7::nat)) = real N" using assms by simp
    ultimately show ?thesis by simp
  qed
  have r: "real (auto_M N) = of_int \<lfloor>?x\<rfloor>"
    using x0 by (simp add: auto_M_def)
  have "real (auto_M N) \<le> ?x" unfolding r by simp
  then have "real (auto_M N) ^ 7 \<le> ?x ^ 7" by (intro power_mono) simp_all
  then have "real (auto_M N ^ 7) \<le> real N" using x7 by simp
  then show "auto_M N ^ 7 \<le> N" by (simp only: of_nat_le_iff)
  have "?x < real (auto_M N) + 1" unfolding r by linarith
  then have "?x ^ 7 < (real (auto_M N) + 1) ^ 7" using x0 by (intro power_strict_mono) simp_all
  then have "real N < real ((auto_M N + 1) ^ 7)" using x7 by (simp add: add.commute)
  then show "N < (auto_M N + 1) ^ 7" by (simp only: of_nat_less_iff)
qed

lemma auto_M_small:
  assumes "1 \<le> N" "N < 128"
  shows "auto_M N = 1"
proof -
  have "auto_M N ^ 7 < 2 ^ 7" using auto_M_bounds(1) [OF assms(1)] assms(2) by simp
  then have "auto_M N < 2" by (rule power_less_imp_less_base) simp
  moreover have "auto_M N \<noteq> 0"
    using auto_M_bounds(2) [OF assms(1)] assms(1) by (intro notI) simp
  ultimately show ?thesis by simp
qed

lemma auto_M_code [code]:
  "auto_M N = (if N = 0 then 0 else if N < 128 then 1 else nat \<lfloor>real N powr (1 / 7)\<rfloor>)"
  using auto_M_small [of N] by (auto simp: auto_M_def)

subsection \<open>Properties of the scan and of the selection\<close>

lemma scan_step_removed:
  "Removed_Samples_Index_ALL (scan_step TRS thr s)
     = Removed_Samples_Index_ALL s @ map int (Removed_Samples_Current thr s)"
  by (simp add: scan_step_def Let_def)

lemma scan_step_tables:
  "length (Bucket_Index_Decimal_All_Class (scan_step TRS thr s))
     = length (Bucket_Index_Decimal_All_Class s)"
  by (simp add: scan_step_def Let_def)

lemma scan_loop_removed:
  "\<exists>new. Removed_Samples_Index_ALL (scan_loop TRS thr s) = Removed_Samples_Index_ALL s @ map int new"
proof (induction TRS thr s rule: scan_loop.induct)
  case (1 TRS thr s)
  show ?case
  proof (cases "iii s < length (All_Indexes s)")
    case True
    then obtain new where
      "Removed_Samples_Index_ALL (scan_loop TRS thr (scan_step TRS thr s))
         = Removed_Samples_Index_ALL (scan_step TRS thr s) @ map int new"
      using "1.IH" by blast
    then have "Removed_Samples_Index_ALL (scan_loop TRS thr s)
         = Removed_Samples_Index_ALL s @ map int (Removed_Samples_Current thr s @ new)"
      using True by (simp add: scan_loop.simps [of TRS thr s] scan_step_removed)
    then show ?thesis by blast
  next
    case False
    then have "Removed_Samples_Index_ALL (scan_loop TRS thr s)
         = Removed_Samples_Index_ALL s @ map int []"
      by (simp add: scan_loop.simps [of TRS thr s])
    then show ?thesis by blast
  qed
qed

lemma class_scan_removed:
  "\<exists>new. class_scan N thr B labels classID removed = removed @ map int new"
  using scan_loop_removed [of "N + 1" thr "class_start N B labels removed classID"]
  by (simp add: class_scan_def class_start_def Let_def)

lemma fold_class_scan_removed:
  "\<exists>new. fold (class_scan N thr B labels) Classes removed = removed @ map int new"
proof (induction Classes arbitrary: removed)
  case Nil
  have "fold (class_scan N thr B labels) [] removed = removed @ map int []" by simp
  then show ?case by blast
next
  case (Cons c Classes)
  obtain n1 where n1: "class_scan N thr B labels c removed = removed @ map int n1"
    using class_scan_removed [of N thr B labels c removed] by (elim exE)
  obtain n2 where "fold (class_scan N thr B labels) Classes (removed @ map int n1)
                     = (removed @ map int n1) @ map int n2"
    using Cons.IH [of "removed @ map int n1"] by (elim exE)
  then have "fold (class_scan N thr B labels) (c # Classes) removed = removed @ map int (n1 @ n2)"
    using n1 by simp
  then show ?case by blast
qed

lemma flagged_nonneg: "v \<in> set (flagged lib self) \<Longrightarrow> 0 \<le> v"
proof -
  obtain new where "flagged lib self = [] @ map int new"
    unfolding flagged_def Let_def using fold_class_scan_removed by blast
  then show "v \<in> set (flagged lib self) \<Longrightarrow> 0 \<le> v" by auto
qed

lemma np_unique_set [simp]: "set (np_unique xs) = set xs"
  by (simp add: np_unique_def)

lemma np_unique_distinct [simp]: "distinct (np_unique xs)"
  by (simp add: np_unique_def)

lemma np_unique_sorted_distinct: "sorted xs \<Longrightarrow> distinct xs \<Longrightarrow> np_unique xs = xs"
  by (simp add: np_unique_def sort_key_id_if_sorted)

lemma np_unique_arange: "np_unique (map int [0..<N]) = map int [0..<N]"
proof (rule np_unique_sorted_distinct)
  show "sorted (map int [0..<N])"
    by (simp add: sorted_map sorted_wrt_iff_nth_less)
  show "distinct (map int [0..<N])"
    by (simp add: distinct_map inj_on_def)
qed

lemma DRLSH_fit_selected:
  "fst (DRLSH_fit lib g self)
     = filter (\<lambda>v. v \<notin> set (filter (\<lambda>v. v \<noteq> - 1) (np_unique (flagged lib self))))
         (map int [0..<length (X self)])"
  by (simp add: DRLSH_fit_def Let_def setdiff1d_def np_unique_arange split: prod.splits)

lemma DRLSH_fit_subset:
  "distinct (fst (DRLSH_fit lib g self))"
  "v \<in> set (fst (DRLSH_fit lib g self)) \<Longrightarrow> 0 \<le> v \<and> v < int (length (X self))"
proof -
  have "distinct (map int [0..<length (X self)])"
    by (simp add: distinct_map inj_on_def)
  then show "distinct (fst (DRLSH_fit lib g self))"
    unfolding DRLSH_fit_selected by (rule distinct_filter)
  show "v \<in> set (fst (DRLSH_fit lib g self)) \<Longrightarrow> 0 \<le> v \<and> v < int (length (X self))"
    unfolding DRLSH_fit_selected by auto
qed

lemma DRLSH_fit_excludes_flagged:
  "set (flagged lib self) \<inter> set (fst (DRLSH_fit lib g self)) = {}"
proof -
  have "v \<notin> set (fst (DRLSH_fit lib g self))" if "v \<in> set (flagged lib self)" for v
  proof -
    have "v \<noteq> - 1" using flagged_nonneg [OF that] by simp
    then show ?thesis using that unfolding DRLSH_fit_selected by simp
  qed
  then show ?thesis by blast
qed

lemma counts_bound:
  "c \<in> set (Number_of_Common_Buckets B cur n) \<Longrightarrow> c \<le> length B"
proof -
  assume "c \<in> set (Number_of_Common_Buckets B cur n)"
  then obtain k where "c = length (filter (\<lambda>(row, v). row ! k = v) (zip B cur))"
    by (auto simp: Number_of_Common_Buckets_def)
  moreover have "length (filter (\<lambda>(row, v). row ! k = v) (zip B cur)) \<le> length (zip B cur)"
    by (rule length_filter_le)
  ultimately show "c \<le> length B" by simp
qed

lemma Removed_Samples_Current_frequency:
  assumes "u \<in> set (Removed_Samples_Current thr s)"
  shows "thr \<le> int (length (Bucket_Index_Decimal_All_Class s))"
proof -
  let ?counts = "Number_of_Common_Buckets
                     (map (\<lambda>row. row[iii s := - 1]) (Bucket_Index_Decimal_All_Class s))
                     (map (\<lambda>row. row ! iii s) (Bucket_Index_Decimal_All_Class s))
                     (length (All_Indexes s))"
  let ?F = "map fst (filter snd (zip ?counts (map (\<lambda>c. c > 0) ?counts)))"
  let ?U = "map fst (filter snd (zip (All_Indexes s) (map (\<lambda>c. c > 0) ?counts)))"
  from assms obtain f where uf: "(u, f) \<in> set (zip ?U ?F)" and f: "thr \<le> int f"
    unfolding Removed_Samples_Current_def Let_def by auto
  have "f \<in> set ?F" using uf by (rule set_zip_rightD)
  then have "f \<in> set ?counts" by (auto dest: set_zip_leftD)
  then have "f \<le> length (map (\<lambda>row. row[iii s := - 1]) (Bucket_Index_Decimal_All_Class s))"
    by (rule counts_bound)
  then show ?thesis using f by simp
qed

lemma Removed_Samples_Current_empty:
  assumes "int (length (Bucket_Index_Decimal_All_Class s)) < thr"
  shows "Removed_Samples_Current thr s = []"
proof (rule ccontr)
  assume "Removed_Samples_Current thr s \<noteq> []"
  then obtain u where "u \<in> set (Removed_Samples_Current thr s)"
    by (meson last_in_set)
  then show False
    using Removed_Samples_Current_frequency assms by fastforce
qed

lemma scan_loop_nothing:
  assumes "int (length (Bucket_Index_Decimal_All_Class s)) < thr"
  shows "Removed_Samples_Index_ALL (scan_loop TRS thr s) = Removed_Samples_Index_ALL s"
  using assms
proof (induction TRS thr s rule: scan_loop.induct)
  case (1 TRS thr s)
  show ?case
  proof (cases "iii s < length (All_Indexes s)")
    case True
    have "Removed_Samples_Index_ALL (scan_loop TRS thr (scan_step TRS thr s))
            = Removed_Samples_Index_ALL (scan_step TRS thr s)"
      using "1.IH" [OF True] "1.prems" by (simp add: scan_step_tables)
    then show ?thesis
      using True "1.prems"
      by (simp add: scan_loop.simps [of TRS thr s] scan_step_removed Removed_Samples_Current_empty)
  next
    case False
    then show ?thesis by (simp add: scan_loop.simps [of TRS thr s])
  qed
qed

lemma class_scan_nothing:
  "int (length B) < thr \<Longrightarrow> class_scan N thr B labels classID removed = removed"
  using scan_loop_nothing [of "class_start N B labels removed classID" thr "N + 1"]
  by (simp add: class_scan_def class_start_def Let_def)

lemma hash_tables_length: "length (fst (snd (hash_tables lib self))) = L self"
  by (simp add: hash_tables_def Let_def Bucket_Index_Decimal_All_def split: prod.splits)

lemma flagged_nothing:
  assumes "int (L self) < ST self"
  shows "flagged lib self = []"
proof -
  have "fold (class_scan N (ST self) (fst (snd (hash_tables lib self))) labels) Classes removed
          = removed" for N labels Classes removed
    using assms by (induction Classes) (simp_all add: class_scan_nothing hash_tables_length)
  then show ?thesis by (simp add: flagged_def Let_def)
qed

lemma hash_tables_M [simp]: "hash_tables lib (self\<lparr>M := m\<rparr>) = hash_tables lib self"
  by (simp add: hash_tables_def Let_def)

lemma flagged_M [simp]: "flagged lib (self\<lparr>M := m\<rparr>) = flagged lib self"
  by (simp add: flagged_def Let_def)

lemma hash_tables_object: "fst (hash_tables lib self) = self\<lparr>M := auto_M (length (X self))\<rparr>"
  by (simp add: hash_tables_def Let_def case_prod_beta)

lemma DRLSH_fit_object:
  "fst (snd (DRLSH_fit lib g self)) = self\<lparr>M := auto_M (length (X self))\<rparr>"
  using hash_tables_object [of lib self]
  by (cases "hash_tables lib self") (simp add: DRLSH_fit_def Let_def)

lemma ICF_fit_cong:
  assumes "X s1 = X s2" "y s1 = y s2" "metric s1 = metric s2" "n_neighbors s1 = n_neighbors s2"
  shows "ICF_fit ENN_fit s1 = ICF_fit ENN_fit s2"
  using fit_loop_cong [OF assms(1-3)] assms by (simp add: ICF_fit_def Let_def)

lemma ICF_fit_subset:
  assumes "distinct (ENN_fit (n_neighbors self) (X self) (y self))"
    and "set (ENN_fit (n_neighbors self) (X self) (y self)) \<subseteq> {0..<length (X self)}"
  shows "distinct (ICF_fit ENN_fit self)" and "set (ICF_fit ENN_fit self) \<subseteq> {0..<length (X self)}"
proof -
  show "distinct (ICF_fit ENN_fit self)"
    unfolding ICF_fit_def Let_def using assms(1) by (rule fit_loop_distinct)
  show "set (ICF_fit ENN_fit self) \<subseteq> {0..<length (X self)}"
    unfolding ICF_fit_def Let_def using fit_loop_subset assms(2) by blast
qed

subsection \<open>The bucket ids of a table\<close>

lemma filter_eq_upt: "j < n \<Longrightarrow> filter (\<lambda>u. u = j) [0..<n] = [j]"
  by (induction n) (auto simp: less_Suc_eq filter_empty_conv)

lemma filter_position:
  assumes "distinct xs" and "j < length xs"
  shows "filter (\<lambda>u. xs ! u = xs ! j) [0..<length xs] = [j]"
proof -
  have "filter (\<lambda>u. xs ! u = xs ! j) [0..<length xs] = filter (\<lambda>u. u = j) [0..<length xs]"
    using assms by (intro filter_cong) (auto simp: nth_eq_iff_index_eq)
  then show ?thesis using assms(2) by (simp add: filter_eq_upt)
qed

text \<open>The position of an entry in a list without repetitions (used in proofs only).\<close>

definition position :: "'a list \<Rightarrow> 'a \<Rightarrow> nat" where
  "position xs x = hd (filter (\<lambda>u. xs ! u = x) [0..<length xs])"

lemma position_props:
  assumes "distinct xs" and "x \<in> set xs"
  shows "filter (\<lambda>u. xs ! u = x) [0..<length xs] = [position xs x]"
    and "xs ! position xs x = x"
proof -
  obtain j where j: "j < length xs" "xs ! j = x"
    using assms(2) by (auto simp: in_set_conv_nth)
  have f: "filter (\<lambda>u. xs ! u = x) [0..<length xs] = [j]"
    using filter_position [OF assms(1) j(1)] j(2) by simp
  then have "position xs x = j" by (simp add: position_def)
  then show "filter (\<lambda>u. xs ! u = x) [0..<length xs] = [position xs x]"
    and "xs ! position xs x = x"
    using f j by simp_all
qed

lemma Bucket_Index_Decimal_eq:
  "Bucket_Index_Decimal N BI
     = map (\<lambda>n. int (position (np_unique (map (\<lambda>n. map (\<lambda>row. row ! n) BI) [0..<N]))
                                (map (\<lambda>row. row ! n) BI)))
           [0..<N]"
proof -
  let ?T = "map (\<lambda>n. map (\<lambda>row. row ! n) BI) [0..<N]"
  let ?U = "np_unique ?T"
  have "map int (filter (\<lambda>u. ?U ! u = sig) [0..<length ?U]) = [int (position ?U sig)]"
    if "sig \<in> set ?T" for sig
    using position_props(1) [of ?U sig] that by simp
  then have "map (\<lambda>sig. map int (filter (\<lambda>u. ?U ! u = sig) [0..<length ?U])) ?T
               = map (\<lambda>sig. [int (position ?U sig)]) ?T"
    by (intro map_cong) auto
  then have "Bucket_Index_Decimal N BI = concat (map (\<lambda>sig. [int (position ?U sig)]) ?T)"
    by (simp only: Bucket_Index_Decimal_def Let_def)
  also have "\<dots> = map (\<lambda>sig. int (position ?U sig)) ?T"
    by (rule concat_map_singleton)
  finally show ?thesis by (simp add: comp_def)
qed

lemma Bucket_Index_Decimal_length [simp]: "length (Bucket_Index_Decimal N BI) = N"
  by (simp add: Bucket_Index_Decimal_eq)

lemma Bucket_Index_Decimal_agree:
  assumes "n < N" and "n' < N"
  shows "(Bucket_Index_Decimal N BI ! n = Bucket_Index_Decimal N BI ! n')
           = (map (\<lambda>row. row ! n) BI = map (\<lambda>row. row ! n') BI)"
proof -
  let ?T = "map (\<lambda>n. map (\<lambda>row. row ! n) BI) [0..<N]"
  let ?U = "np_unique ?T"
  let ?c = "\<lambda>n. map (\<lambda>row. row ! n) BI"
  have mem: "?c k \<in> set ?U" if "k < N" for k
    using that by (force simp: image_iff)
  have at_pos: "?U ! position ?U (?c k) = ?c k" if "k < N" for k
    using position_props(2) [of ?U "?c k"] mem [OF that] by simp
  have "(position ?U (?c n) = position ?U (?c n')) = (?c n = ?c n')"
    using at_pos [OF assms(1)] at_pos [OF assms(2)] by metis
  then show ?thesis
    using assms by (simp add: Bucket_Index_Decimal_eq)
qed

text \<open>
  \<open>Bucket_Index\<close> of line 43 for table \<open>i\<close> of a fit: the projections \<open>a[j]\<close> and the
  offsets \<open>b[j]\<close> are the rows \<open>i * M\<close> to \<open>(i + 1) * M - 1\<close> of what the seeded
  generator draws.
\<close>

definition table_Bucket_Index :: "'g library \<Rightarrow> 'l DRLSH \<Rightarrow> nat \<Rightarrow> int list list" where
  "table_Bucket_Index lib self i =
     (let self = self\<lparr>M := auto_M (length (X self))\<rparr>;
          Data = MinMaxScaler_fit_transform lib (X self);
          Dimension = (case X self of [] \<Rightarrow> 0 | row # _ \<Rightarrow> length row);
          g = random_seed lib 0;
          (a, g) = random_normal lib g (M self * L self) Dimension;
          (r, g) = random_rand lib g (M self * L self);
          b = map (\<lambda>v. W self * v) r
      in Bucket_Index (take (M self) (drop (i * M self) a)) (take (M self) (drop (i * M self) b))
           (W self) Data)"

lemma hash_tables_row:
  assumes "i < L self"
  shows "fst (snd (hash_tables lib self)) ! i
           = Bucket_Index_Decimal (length (MinMaxScaler_fit_transform lib (X self)))
               (table_Bucket_Index lib self i)"
  using assms
  by (simp add: hash_tables_def table_Bucket_Index_def Bucket_Index_Decimal_All_def Let_def
        case_prod_beta)

lemma Bucket_Index_nth:
  assumes "k < length aj" "k < length bj" "n < length Data"
  shows "Bucket_Index aj bj w Data ! k ! n
           = astype_int16 \<lfloor>(dot (aj ! k) (Data ! n) + bj ! k) / w\<rfloor>"
  using assms by (simp add: Bucket_Index_def)

lemma single_class_counts:
  assumes "i < n"
  shows "length (filter (\<lambda>j. j \<noteq> i) [0..<n]) = n - 1"
proof -
  have "length (filter (\<lambda>j. j \<noteq> i) [0..<n]) = card ({j. j \<noteq> i} \<inter> set [0..<n])"
    by (rule distinct_length_filter) simp
  also have "{j. j \<noteq> i} \<inter> set [0..<n] = {0..<n} - {i}" by auto
  also have "card ({0..<n} - {i}) = n - 1" using assms by simp
  finally show ?thesis .
qed

lemma Bucket_Index_offset:
  assumes "w \<noteq> 0" "k < length aj" "k < length r" "n < length Data"
  shows "Bucket_Index aj (map (\<lambda>v. w * v) r) w Data ! k ! n
           = astype_int16 \<lfloor>dot (aj ! k) (Data ! n) / w + r ! k\<rfloor>"
proof -
  have "(dot (aj ! k) (Data ! n) + w * r ! k) / w = dot (aj ! k) (Data ! n) / w + r ! k"
    using assms(1) by (simp add: add_divide_distrib)
  then show ?thesis
    using assms by (simp add: Bucket_Index_nth)
qed

section \<open>Concrete inputs\<close>

text \<open>
  A four-point dataset for ICF (three points of class 0 at 0, 1 and 2, one point of class 1
  at 3.5, absolute difference as the metric), a one-class dataset, and a pre-filter that
  keeps every instance.
\<close>

definition example_icf :: "(real, nat) ICF" where
  "example_icf =
     \<lparr>X = [0, 1, 2, 7 / 2], y = [0, 0, 0, 1], metric = (\<lambda>a b. \<bar>a - b\<bar>), n_neighbors = 1,
      mask = [], distance_nearest_enemy = [], pairwise_distance = [], X' = [], y' = []\<rparr>"

definition example_one_class :: "(real, nat) ICF" where
  "example_one_class =
     \<lparr>X = [0, 1, 3], y = [0, 0, 0], metric = (\<lambda>a b. \<bar>a - b\<bar>), n_neighbors = 1,
      mask = [], distance_nearest_enemy = [], pairwise_distance = [], X' = [], y' = []\<rparr>"

definition keep_all :: "nat \<Rightarrow> real list \<Rightarrow> nat list \<Rightarrow> nat list" where
  "keep_all k Xs ys = [0..<length Xs]"

text \<open>
  For DRLSH: min-max scaling of every feature, a generator whose state counts the numbers
  drawn and that returns 1 for every normal draw and 1/2 for every uniform draw, and a
  three-point dataset with two near-duplicates of class 0, configured with \<open>M = 25\<close>.
\<close>

definition minmax_scale :: "real list list \<Rightarrow> real list list" where
  "minmax_scale Xs =
     map (\<lambda>row. map (\<lambda>k. let col = map (\<lambda>r. r ! k) Xs; lo = Min (set col); hi = Max (set col)
                          in (row ! k - lo) / (if hi = lo then 1 else hi - lo))
                    [0..<length row]) Xs"

definition example_library :: "nat library" where
  "example_library =
     \<lparr>random_seed = (\<lambda>n. n),
      random_normal = (\<lambda>g r c. (replicate r (replicate c 1), g + r * c)),
      random_rand = (\<lambda>g r. (replicate r (1 / 2), g + r)),
      MinMaxScaler_fit_transform = minmax_scale\<rparr>"

definition example_drlsh :: "nat DRLSH" where
  "example_drlsh = \<lparr>X = [ [0], [1 / 100], [1] ], y = [0, 0, 1], M = 25, L = 1, W = 1, ST = 1\<rparr>"

section \<open>The claims\<close>

text \<open>
  Claim C1.  The index sequence that DRLSH's \<open>_fit\<close> returns has no repetition and every
  element of it is an integer from 0 up to, but not including, the number of rows; the
  same holds for the sequence that ICF's \<open>_fit\<close> returns, given that the ENN pre-filter
  (whose code is not among the sources) returns such a sequence.
\<close>

theorem selected_indices_subset:
  assumes "distinct (ENN_fit (n_neighbors icf) (X icf) (y icf))"
    and "set (ENN_fit (n_neighbors icf) (X icf) (y icf)) \<subseteq> {0..<length (X icf)}"
  shows "distinct (fst (DRLSH_fit lib g drlsh))
       \<and> (\<forall>v\<in>set (fst (DRLSH_fit lib g drlsh)). 0 \<le> v \<and> v < int (length (X drlsh)))
       \<and> distinct (ICF_fit ENN_fit icf)
       \<and> (\<forall>i\<in>set (ICF_fit ENN_fit icf). i < length (X icf))"
  using DRLSH_fit_subset [where lib = lib and g = g and self = drlsh] ICF_fit_subset [where ENN_fit = ENN_fit and self = icf, OF assms]
  by auto

text \<open>The theorem at a concrete input.\<close>

theorem selected_indices_subset_witness:
  "distinct (keep_all (n_neighbors example_icf) (X example_icf) (y example_icf))
   \<and> set (keep_all (n_neighbors example_icf) (X example_icf) (y example_icf))
        \<subseteq> {0..<length (X example_icf)}
   \<and> fst (DRLSH_fit example_library 0 example_drlsh) = [0, 2]
   \<and> ICF_fit keep_all example_icf = [1, 2, 3]
   \<and> distinct (fst (DRLSH_fit example_library 0 example_drlsh))
   \<and> (2 \<in> set (fst (DRLSH_fit example_library 0 example_drlsh))
        \<and> (0::int) \<le> 2 \<and> 2 < int (length (X example_drlsh)))
   \<and> distinct (ICF_fit keep_all example_icf)
   \<and> (3 \<in> set (ICF_fit keep_all example_icf) \<and> 3 < length (X example_icf))"
proof -
  have d: "distinct (keep_all (n_neighbors example_icf) (X example_icf) (y example_icf))"
    by (simp add: keep_all_def)
  have s: "set (keep_all (n_neighbors example_icf) (X example_icf) (y example_icf))
             \<subseteq> {0..<length (X example_icf)}"
    by (simp add: keep_all_def)
  have e1: "fst (DRLSH_fit example_library 0 example_drlsh) = [0, 2]" by code_simp
  have e2: "ICF_fit keep_all example_icf = [1, 2, 3]" by code_simp
  have m1: "2 \<in> set (fst (DRLSH_fit example_library 0 example_drlsh))" unfolding e1 by simp
  have m2: "3 \<in> set (ICF_fit keep_all example_icf)" unfolding e2 by simp
  from selected_indices_subset
         [where ENN_fit = keep_all and icf = example_icf and lib = example_library
            and g = 0 and drlsh = example_drlsh, OF d s]
  show ?thesis using d s e1 e2 m1 m2 by blast
qed

text \<open>
  Claim C2.  In a pass of ICF's loop over the surviving set \<open>S\<close>, the nearest-enemy
  distance that the code stores for an instance is the minimum distance to an instance of
  another class in \<open>S\<close> (infinity if there is none); the coverage the code computes for
  \<open>i\<close> is the number of other \<open>j\<close> in \<open>S\<close> with distance(i, j) below the nearest-enemy
  distance of \<open>j\<close>, and the reachability is the number of other \<open>j\<close> with distance(j, i)
  below the nearest-enemy distance of \<open>i\<close>.  The pass keeps exactly the instances whose
  reachability does not exceed their coverage, all decided on these pass-start values, and
  reports progress exactly when it removed one.
\<close>

theorem icf_pass_snapshot:
  "(\<forall>i<length S.
       distance_nearest_enemy (pass_start self S) ! i = nearest_enemy_distance self S i
     \<and> get_coverage (pass_start self S) i = coverage_count self S i
     \<and> get_reachable (pass_start self S) i = reachability_count self S i)
   \<and> snd (fit_pass self S)
       = (map (\<lambda>i. S ! i)
            (filter (\<lambda>i. \<not> reachability_count self S i > coverage_count self S i) [0..<length S]),
          \<exists>i<length S. reachability_count self S i > coverage_count self S i)"
  using fit_pass_eq [of self S]
  by (simp add: pass_start_nearest_enemy pass_start_coverage pass_start_reachable
        removed_in_pass_def)

text \<open>The theorem at a concrete input.\<close>

theorem icf_pass_snapshot_witness:
  "0 < length [0, 1, 2, 3 :: nat]
   \<and> distance_nearest_enemy (pass_start example_icf [0, 1, 2, 3]) ! 0 = Fin (7 / 2)
   \<and> get_coverage (pass_start example_icf [0, 1, 2, 3]) 0 = 1
   \<and> get_reachable (pass_start example_icf [0, 1, 2, 3]) 0 = 2
   \<and> snd (fit_pass example_icf [0, 1, 2, 3]) = ([1, 2, 3], True)"
proof -
  have n: "nearest_enemy_distance example_icf [0, 1, 2, 3] 0 = Fin (7 / 2)" by code_simp
  have c: "coverage_count example_icf [0, 1, 2, 3] 0 = 1" by code_simp
  have r: "reachability_count example_icf [0, 1, 2, 3] 0 = 2" by code_simp
  have f: "map (\<lambda>i. [0, 1, 2, 3 :: nat] ! i)
             (filter (\<lambda>i. \<not> reachability_count example_icf [0, 1, 2, 3] i
                               > coverage_count example_icf [0, 1, 2, 3] i)
                [0..<length [0, 1, 2, 3 :: nat] ]) = [1, 2, 3]"
    by code_simp
  have e: "\<exists>i<length [0, 1, 2, 3 :: nat].
             reachability_count example_icf [0, 1, 2, 3] i > coverage_count example_icf [0, 1, 2, 3] i"
    using c r by (intro exI [of _ 0]) simp
  have l: "0 < length [0, 1, 2, 3 :: nat]" by simp
  from icf_pass_snapshot [of "[0, 1, 2, 3]" example_icf] l
  have "distance_nearest_enemy (pass_start example_icf [0, 1, 2, 3]) ! 0
          = nearest_enemy_distance example_icf [0, 1, 2, 3] 0"
    and "get_coverage (pass_start example_icf [0, 1, 2, 3]) 0 = coverage_count example_icf [0, 1, 2, 3] 0"
    and "get_reachable (pass_start example_icf [0, 1, 2, 3]) 0 = reachability_count example_icf [0, 1, 2, 3] 0"
    and "snd (fit_pass example_icf [0, 1, 2, 3])
          = (map (\<lambda>i. [0, 1, 2, 3 :: nat] ! i)
             (filter (\<lambda>i. \<not> reachability_count example_icf [0, 1, 2, 3] i
                               > coverage_count example_icf [0, 1, 2, 3] i)
                [0..<length [0, 1, 2, 3 :: nat] ]),
             \<exists>i<length [0, 1, 2, 3 :: nat].
             reachability_count example_icf [0, 1, 2, 3] i > coverage_count example_icf [0, 1, 2, 3] i)"
    by blast+
  then show ?thesis
    unfolding n c r f using e l by simp
qed

text \<open>
  Claim C3.  A pass never makes the surviving set longer, and on a non-empty dataset the
  loop of ICF's \<open>_fit\<close> runs at most as many passes as the dataset has rows.  (That the
  loop ends at all is the termination proof of \<open>fit_loop\<close>.)  The ENN pre-filter is
  taken to return distinct row indices.
\<close>

theorem icf_terminates_within_N_passes:
  assumes "distinct (ENN_fit (n_neighbors self) (X self) (y self))"
    and "set (ENN_fit (n_neighbors self) (X self) (y self)) \<subseteq> {0..<length (X self)}"
    and "X self \<noteq> []"
  shows "ICF_passes ENN_fit self \<le> length (X self)
         \<and> length (fst (snd (fit_pass s S))) \<le> length S"
proof -
  let ?S0 = "ENN_fit (n_neighbors self) (X self) (y self)"
  have "length ?S0 = card (set ?S0)"
    using assms(1) by (simp add: distinct_card)
  also have "\<dots> \<le> card {0..<length (X self)}"
    using assms(2) by (intro card_mono) auto
  finally have le: "length ?S0 \<le> length (X self)" by simp
  have pos: "1 \<le> length (X self)" using assms(3) by (cases "X self") auto
  have "ICF_passes ENN_fit self \<le> 0 + max 1 (length ?S0)"
    unfolding ICF_passes_def Let_def by (rule fit_loop_passes)
  then have "ICF_passes ENN_fit self \<le> length (X self)"
    using le pos by simp
  then show ?thesis
    using fit_pass_length [of s S] by simp
qed

text \<open>The theorem at a concrete input.\<close>

theorem icf_terminates_within_N_passes_witness:
  "distinct (keep_all (n_neighbors example_icf) (X example_icf) (y example_icf))
   \<and> set (keep_all (n_neighbors example_icf) (X example_icf) (y example_icf))
        \<subseteq> {0..<length (X example_icf)}
   \<and> X example_icf \<noteq> []
   \<and> ICF_passes keep_all example_icf \<le> length (X example_icf)
   \<and> ICF_passes keep_all example_icf = 2
   \<and> length (fst (snd (fit_pass example_icf [0, 1, 2, 3]))) \<le> length [0, 1, 2, 3 :: nat]"
proof -
  have d: "distinct (keep_all (n_neighbors example_icf) (X example_icf) (y example_icf))"
    by (simp add: keep_all_def)
  have s: "set (keep_all (n_neighbors example_icf) (X example_icf) (y example_icf))
             \<subseteq> {0..<length (X example_icf)}"
    by (simp add: keep_all_def)
  have x: "X example_icf \<noteq> []" by (simp add: example_icf_def)
  have p: "ICF_passes keep_all example_icf = 2" by code_simp
  show ?thesis
    using icf_terminates_within_N_passes
            [where ENN_fit = keep_all and self = example_icf and s = example_icf
               and S = "[0, 1, 2, 3]", OF d s x] d s x p
    by simp
qed

text \<open>
  Claim C4.  The selection of DRLSH's \<open>_fit\<close> does not depend on the state of numpy's
  generator at the call (the generator is seeded inside), and a second run, on the reducer
  the first run left behind and from any generator state, returns the same selection.
  ICF's \<open>_fit\<close> reads none of the fields it keeps between runs (mask, nearest-enemy
  distances, distance matrix, \<open>X_\<close>, \<open>y_\<close>) before it has overwritten them, so its result
  is a function of the dataset and the configuration.
\<close>

theorem fit_deterministic:
  "fst (DRLSH_fit lib g2 self) = fst (DRLSH_fit lib g1 self)
   \<and> fst (DRLSH_fit lib g2 (fst (snd (DRLSH_fit lib g1 self)))) = fst (DRLSH_fit lib g1 self)
   \<and> ICF_fit ENN_fit (icf\<lparr>mask := m, distance_nearest_enemy := d, pairwise_distance := p,
                           X' := x, y' := z\<rparr>) = ICF_fit ENN_fit icf"
proof -
  have a: "fst (DRLSH_fit lib g2 self) = fst (DRLSH_fit lib g1 self)"
    by (simp add: DRLSH_fit_selected)
  have b: "fst (DRLSH_fit lib g2 (self\<lparr>M := auto_M (length (X self))\<rparr>)) = fst (DRLSH_fit lib g1 self)"
    by (simp add: DRLSH_fit_selected)
  have c: "ICF_fit ENN_fit (icf\<lparr>mask := m, distance_nearest_enemy := d, pairwise_distance := p,
                           X' := x, y' := z\<rparr>) = ICF_fit ENN_fit icf"
    by (rule ICF_fit_cong) simp_all
  show ?thesis
    using a b c by (simp add: DRLSH_fit_object)
qed

text \<open>The theorem at a concrete input.\<close>

theorem fit_deterministic_witness:
  "fst (DRLSH_fit example_library 5 example_drlsh) = fst (DRLSH_fit example_library 0 example_drlsh)
   \<and> fst (DRLSH_fit example_library 5 (fst (snd (DRLSH_fit example_library 0 example_drlsh))))
       = fst (DRLSH_fit example_library 0 example_drlsh)
   \<and> ICF_fit keep_all (example_icf\<lparr>mask := [False], distance_nearest_enemy := [Fin 0],
                           pairwise_distance := [ [1] ], X' := [9], y' := [4]\<rparr>)
       = ICF_fit keep_all example_icf"
  using fit_deterministic
          [where lib = example_library and ?g2.0 = 5 and ?g1.0 = 0 and self = example_drlsh
             and ENN_fit = keep_all and icf = example_icf and m = "[False]" and d = "[Fin 0]"
             and p = "[ [1] ]" and x = "[9]" and z = "[4]"]
  by simp

text \<open>
  Claim C5, as the claim states it, fails: on a dataset with one class the nearest-enemy
  distances are infinite, and for that very reason a comparison \<open>distance < infinity\<close> of
  \<open>_adaptable\<close> is true, not false.
\<close>

theorem icf_single_class_counterexample:
  "y example_one_class ! 0 = y example_one_class ! 1
   \<and> y example_one_class ! 1 = y example_one_class ! 2
   \<and> distance_nearest_enemy (pass_start example_one_class [0, 1, 2]) ! 1 = Infinity
   \<and> adaptable (pass_start example_one_class [0, 1, 2]) 0 1"
  by code_simp

text \<open>
  Claim C5, amended.  When all surviving instances carry one label, every nearest-enemy
  distance is infinite, every adaptability comparison between surviving instances is true,
  the coverage of every instance equals its reachability (both count all the other
  surviving instances), so no instance has a reachability above its coverage, the pass
  removes nothing and the loop stops after one pass with the set it started from:
  \<open>_fit\<close> returns what the ENN pre-filter returned.
\<close>

theorem icf_single_class:
  assumes "\<forall>s\<in>set S. y self ! s = c"
  shows "(\<forall>i<length S. distance_nearest_enemy (pass_start self S) ! i = Infinity)
       \<and> (\<forall>i<length S. \<forall>j<length S. adaptable (pass_start self S) i j)
       \<and> (\<forall>i<length S. get_coverage (pass_start self S) i = get_reachable (pass_start self S) i
                        \<and> get_coverage (pass_start self S) i = length S - 1)
       \<and> (\<forall>i<length S. \<not> get_reachable (pass_start self S) i > get_coverage (pass_start self S) i)
       \<and> snd (fit_pass self S) = (S, False)
       \<and> snd (fit_loop self S 0) = (S, 1)
       \<and> (S = ENN_fit (n_neighbors self) (X self) (y self) \<longrightarrow> ICF_fit ENN_fit self = S)"
proof -
  have same: "y self ! (S ! i) = y self ! (S ! j)" if "i < length S" "j < length S" for i j
    using assms that by simp
  have ne: "nearest_enemy_distance self S i = Infinity" if "i < length S" for i
  proof -
    have "filter (\<lambda>j. y self ! (S ! i) \<noteq> y self ! (S ! j)) [0..<length S] = []"
      using same [OF that] by (simp add: filter_empty_conv)
    then show ?thesis
      by (simp add: nearest_enemy_distance_def enemy_distances_def)
  qed
  have ad: "adaptable (pass_start self S) i j" if "i < length S" "j < length S" for i j
    using that by (simp add: pass_start_adaptable ne)
  have cov: "coverage_count self S i = length S - 1" if "i < length S" for i
  proof -
    have "coverage_count self S i = length (filter (\<lambda>j. j \<noteq> i) [0..<length S])"
      unfolding coverage_count_def
      by (intro arg_cong [where f = length] filter_cong) (auto simp: ne)
    then show ?thesis using single_class_counts [OF that] by simp
  qed
  have rea: "reachability_count self S i = length S - 1" if "i < length S" for i
  proof -
    have "reachability_count self S i = length (filter (\<lambda>j. j \<noteq> i) [0..<length S])"
      unfolding reachability_count_def using that
      by (intro arg_cong [where f = length] filter_cong) (auto simp: ne)
    then show ?thesis using single_class_counts [OF that] by simp
  qed
  have nr: "\<not> removed_in_pass self S i" if "i < length S" for i
    using cov [OF that] rea [OF that] by (simp add: removed_in_pass_def)
  have "filter (\<lambda>i. \<not> removed_in_pass self S i) [0..<length S] = [0..<length S]"
    using nr by (intro filter_True) auto
  then have pass: "snd (fit_pass self S) = (S, False)"
    using nr by (simp add: fit_pass_eq map_nth)
  then have "fit_pass self S = (fst (fit_pass self S), S, False)"
    by (cases "fit_pass self S") simp
  then have loop: "snd (fit_loop self S 0) = (S, 1)"
    using fit_loop_stop [of self S "fst (fit_pass self S)" S 0] by simp
  have fit: "ICF_fit ENN_fit self = S" if "S = ENN_fit (n_neighbors self) (X self) (y self)"
    using loop that by (simp add: ICF_fit_def Let_def)
  show ?thesis
    using ne ad cov rea pass loop fit
    by (simp add: pass_start_nearest_enemy pass_start_coverage pass_start_reachable)
qed

text \<open>The theorem at a concrete input.\<close>

theorem icf_single_class_witness:
  "y example_one_class ! 0 = 0 \<and> y example_one_class ! 1 = 0 \<and> y example_one_class ! 2 = 0
   \<and> 1 < length [0, 1, 2 :: nat] \<and> 0 < length [0, 1, 2 :: nat]
   \<and> distance_nearest_enemy (pass_start example_one_class [0, 1, 2]) ! 1 = Infinity
   \<and> adaptable (pass_start example_one_class [0, 1, 2]) 0 1
   \<and> get_coverage (pass_start example_one_class [0, 1, 2]) 1
       = get_reachable (pass_start example_one_class [0, 1, 2]) 1
   \<and> get_coverage (pass_start example_one_class [0, 1, 2]) 1 = length [0, 1, 2 :: nat] - 1
   \<and> \<not> get_reachable (pass_start example_one_class [0, 1, 2]) 1
         > get_coverage (pass_start example_one_class [0, 1, 2]) 1
   \<and> snd (fit_pass example_one_class [0, 1, 2]) = ([0, 1, 2], False)
   \<and> snd (fit_loop example_one_class [0, 1, 2] 0) = ([0, 1, 2], 1)
   \<and> [0, 1, 2] = keep_all (n_neighbors example_one_class) (X example_one_class) (y example_one_class)
   \<and> ICF_fit keep_all example_one_class = [0, 1, 2]"
proof -
  have y: "y example_one_class ! 0 = 0" "y example_one_class ! 1 = 0" "y example_one_class ! 2 = 0"
    by (simp_all add: example_one_class_def)
  then have h: "\<forall>s\<in>set [0, 1, 2]. y example_one_class ! s = 0"
    by simp
  have l: "1 < length [0, 1, 2 :: nat]" "0 < length [0, 1, 2 :: nat]" by simp_all
  have k: "[0, 1, 2] = keep_all (n_neighbors example_one_class) (X example_one_class)
                         (y example_one_class)"
    by code_simp
  from icf_single_class [OF h, where ENN_fit = keep_all] l y k
  show ?thesis by blast
qed

text \<open>
  Claim C6.  The code at a concrete input: the reducer is configured with \<open>M = 25\<close> and
  fitted on three rows; \<open>_fit\<close> overwrites \<open>M\<close> with \<open>int(3 ** (1 / 7)) = 1\<close>.
\<close>

theorem drlsh_configured_M_overwritten:
  "M example_drlsh = 25
   \<and> length (X example_drlsh) = 3
   \<and> M (fst (snd (DRLSH_fit example_library 0 example_drlsh))) = 1"
  by code_simp

text \<open>
  Claim C7, as the claim states it, fails: with \<open>W = -1\<close> the fit returns a selection.
\<close>

theorem drlsh_negative_W_counterexample:
  "W (example_drlsh\<lparr>W := - 1\<rparr>) \<le> 0
   \<and> fit (DRLSH_fit example_library 0) (example_drlsh\<lparr>W := - 1\<rparr>) [ [0], [1 / 100], [1] ] [0, 0, 1]
       = Inr ([0, 2], example_drlsh\<lparr>W := - 1, M := 1\<rparr>, 2)"
  by code_simp

text \<open>
  Claim C7, amended.  DRLSH's \<open>_fit\<close> has no check of \<open>W\<close>, so what \<open>fit\<close> does is the
  same for every value \<open>w\<close> of \<open>W\<close>, the negative ones and zero included.  It fails
  exactly when the dataset is empty or its features and labels differ in length.
  Otherwise it returns a selection, a repetition-free sequence of row indices, and leaves
  \<open>W\<close> as it was.  In every table two instances get the same bucket id exactly when they
  agree in all the quantised projections of line 43.  For \<open>w\<close> other than zero such a
  projection is the floor of \<open>a . x / w + r\<close>, where \<open>r\<close> is the uniform draw behind the
  offset \<open>b = w * r\<close>: the formula of a positive width.  (For \<open>w = 0\<close> numpy's quotient is
  infinite or not a number, so the value of a projection is stated for the other widths
  only.)
\<close>

theorem drlsh_fit_no_width_check:
  "((\<exists>e. fit (DRLSH_fit lib g) (self\<lparr>W := w\<rparr>) Xs ys = Inl e)
      = (length Xs \<noteq> length ys \<or> Xs = []))
   \<and> (length Xs = length ys \<and> Xs \<noteq> [] \<longrightarrow>
        (\<exists>sel self' g'. fit (DRLSH_fit lib g) (self\<lparr>W := w\<rparr>) Xs ys = Inr (sel, self', g')
           \<and> W self' = w \<and> distinct sel
           \<and> (\<forall>v\<in>set sel. 0 \<le> v \<and> v < int (length Xs))))
   \<and> (i < L self \<and> n < length (MinMaxScaler_fit_transform lib Xs)
         \<and> n' < length (MinMaxScaler_fit_transform lib Xs) \<longrightarrow>
        (fst (snd (hash_tables lib (self\<lparr>W := w, X := Xs, y := ys\<rparr>))) ! i ! n
           = fst (snd (hash_tables lib (self\<lparr>W := w, X := Xs, y := ys\<rparr>))) ! i ! n')
        = (map (\<lambda>row. row ! n) (table_Bucket_Index lib (self\<lparr>W := w, X := Xs, y := ys\<rparr>) i)
           = map (\<lambda>row. row ! n') (table_Bucket_Index lib (self\<lparr>W := w, X := Xs, y := ys\<rparr>) i)))
   \<and> (w \<noteq> 0 \<and> k < length aj \<and> k < length r \<and> m < length Data \<longrightarrow>
        Bucket_Index aj (map (\<lambda>v. w * v) r) w Data ! k ! m
          = astype_int16 \<lfloor>dot (aj ! k) (Data ! m) / w + r ! k\<rfloor>)"
proof -
  let ?s = "self\<lparr>W := w, X := Xs, y := ys\<rparr>"
  have a: "(\<exists>e. fit (DRLSH_fit lib g) (self\<lparr>W := w\<rparr>) Xs ys = Inl e)
             = (length Xs \<noteq> length ys \<or> Xs = [])"
    by (auto simp: fit_def)
  have b: "\<exists>sel self' g'. fit (DRLSH_fit lib g) (self\<lparr>W := w\<rparr>) Xs ys = Inr (sel, self', g')
           \<and> W self' = w \<and> distinct sel
           \<and> (\<forall>v\<in>set sel. 0 \<le> v \<and> v < int (length Xs))"
    if wf: "length Xs = length ys \<and> Xs \<noteq> []"
  proof -
    obtain sel self' g' where r: "DRLSH_fit lib g ?s = (sel, self', g')"
      by (cases "DRLSH_fit lib g ?s") auto
    have "distinct sel" "\<forall>v\<in>set sel. 0 \<le> v \<and> v < int (length Xs)"
      using DRLSH_fit_subset [where lib = lib and g = g and self = ?s] r by simp_all
    moreover have "W self' = w"
      using DRLSH_fit_object [of lib g ?s] r by simp
    ultimately show ?thesis
      using wf r by (simp add: fit_def)
  qed
  have c: "(fst (snd (hash_tables lib ?s)) ! i ! n = fst (snd (hash_tables lib ?s)) ! i ! n')
        = (map (\<lambda>row. row ! n) (table_Bucket_Index lib ?s i)
           = map (\<lambda>row. row ! n') (table_Bucket_Index lib ?s i))"
    if "i < L self \<and> n < length (MinMaxScaler_fit_transform lib Xs)
         \<and> n' < length (MinMaxScaler_fit_transform lib Xs)"
    using that hash_tables_row [of i ?s lib]
    by (simp add: Bucket_Index_Decimal_agree)
  have d: "Bucket_Index aj (map (\<lambda>v. w * v) r) w Data ! k ! m
          = astype_int16 \<lfloor>dot (aj ! k) (Data ! m) / w + r ! k\<rfloor>"
    if "w \<noteq> 0 \<and> k < length aj \<and> k < length r \<and> m < length Data"
    using that by (simp add: Bucket_Index_offset)
  show ?thesis
    using a b c d by blast
qed

text \<open>The theorem at a concrete input.\<close>

theorem drlsh_fit_no_width_check_witness:
  "length [ [0], [1 / 100], [1 :: real] ] = length [0, 0, 1 :: nat]
   \<and> [ [0], [1 / 100], [1 :: real] ] \<noteq> []
   \<and> (\<exists>sel self' g'.
         fit (DRLSH_fit example_library 0) (example_drlsh\<lparr>W := - 1\<rparr>) [ [0], [1 / 100], [1] ] [0, 0, 1]
           = Inr (sel, self', g')
         \<and> W self' = - 1 \<and> distinct sel
         \<and> (\<forall>v\<in>set sel. 0 \<le> v \<and> v < int (length [ [0], [1 / 100], [1 :: real] ])))
   \<and> (\<exists>sel self' g'.
         fit (DRLSH_fit example_library 0) (example_drlsh\<lparr>W := 0\<rparr>) [ [0], [1 / 100], [1] ] [0, 0, 1]
           = Inr (sel, self', g')
         \<and> W self' = 0 \<and> distinct sel
         \<and> (\<forall>v\<in>set sel. 0 \<le> v \<and> v < int (length [ [0], [1 / 100], [1 :: real] ])))
   \<and> 0 < L example_drlsh
   \<and> 1 < length (MinMaxScaler_fit_transform example_library [ [0], [1 / 100], [1] ])
   \<and> map (\<lambda>row. row ! 0)
        (table_Bucket_Index example_library
           (example_drlsh\<lparr>W := - 1, X := [ [0], [1 / 100], [1] ], y := [0, 0, 1]\<rparr>) 0) = [0]
   \<and> map (\<lambda>row. row ! 1)
        (table_Bucket_Index example_library
           (example_drlsh\<lparr>W := - 1, X := [ [0], [1 / 100], [1] ], y := [0, 0, 1]\<rparr>) 0) = [0]
   \<and> fst (snd (hash_tables example_library
                  (example_drlsh\<lparr>W := - 1, X := [ [0], [1 / 100], [1] ], y := [0, 0, 1]\<rparr>))) ! 0 ! 0
       = fst (snd (hash_tables example_library
                  (example_drlsh\<lparr>W := - 1, X := [ [0], [1 / 100], [1] ], y := [0, 0, 1]\<rparr>))) ! 0 ! 1
   \<and> Bucket_Index [ [1] ] (map (\<lambda>v. - 1 * v) [1 / 2]) (- 1) [ [1 / 100] ] ! 0 ! 0 = 0"
proof -
  let ?X = "[ [0], [1 / 100], [1 :: real] ]"
  let ?y = "[0, 0, 1 :: nat]"
  let ?s = "example_drlsh\<lparr>W := - 1, X := ?X, y := ?y\<rparr>"
  have l: "length ?X = length ?y" "?X \<noteq> []" by simp_all
  have t: "0 < L example_drlsh" by code_simp
  have n: "1 < length (MinMaxScaler_fit_transform example_library ?X)" by code_simp
  have n0: "0 < length (MinMaxScaler_fit_transform example_library ?X)" using n by linarith
  have c0: "map (\<lambda>row. row ! 0) (table_Bucket_Index example_library ?s 0) = [0]" by code_simp
  have c1: "map (\<lambda>row. row ! 1) (table_Bucket_Index example_library ?s 0) = [0]" by code_simp
  have v: "astype_int16 \<lfloor>dot ([ [1] ] ! 0) ([ [1 / 100] ] ! 0) / (- 1) + [1 / 2] ! 0\<rfloor> = 0"
    by code_simp
  have g: "(- 1 :: real) \<noteq> 0" "(0::nat) < length [ [1 :: real] ]" "(0::nat) < length [1 / 2 :: real]"
    "(0::nat) < length [ [1 / 100 :: real] ]"
    by simp_all
  note T1 = drlsh_fit_no_width_check
    [where lib = example_library and g = 0 and self = example_drlsh and w = "- 1" and Xs = ?X
       and ys = ?y and i = 0 and n = 0 and n' = 1 and aj = "[ [1] ]" and r = "[1 / 2]"
       and Data = "[ [1 / 100] ]" and k = 0 and m = 0]
  note T0 = drlsh_fit_no_width_check
    [where lib = example_library and g = 0 and self = example_drlsh and w = 0 and Xs = ?X
       and ys = ?y and i = 0 and n = 0 and n' = 1 and aj = "[ [1] ]" and r = "[1 / 2]"
       and Data = "[ [1 / 100] ]" and k = 0 and m = 0]
  have r1: "\<exists>sel self' g'.
         fit (DRLSH_fit example_library 0) (example_drlsh\<lparr>W := - 1\<rparr>) ?X ?y = Inr (sel, self', g')
         \<and> W self' = - 1 \<and> distinct sel \<and> (\<forall>v\<in>set sel. 0 \<le> v \<and> v < int (length ?X))"
    using T1 l by blast
  have r0: "\<exists>sel self' g'.
         fit (DRLSH_fit example_library 0) (example_drlsh\<lparr>W := 0\<rparr>) ?X ?y = Inr (sel, self', g')
         \<and> W self' = 0 \<and> distinct sel \<and> (\<forall>v\<in>set sel. 0 \<le> v \<and> v < int (length ?X))"
    using T0 l by blast
  have same: "map (\<lambda>row. row ! 0) (table_Bucket_Index example_library ?s 0)
               = map (\<lambda>row. row ! 1) (table_Bucket_Index example_library ?s 0)"
    by (simp only: c0 c1)
  have ids: "fst (snd (hash_tables example_library ?s)) ! 0 ! 0
               = fst (snd (hash_tables example_library ?s)) ! 0 ! 1"
    using T1 [THEN conjunct2, THEN conjunct2, THEN conjunct1, THEN mp, OF conjI [OF t conjI [OF n0 n]]]
      same by (rule iffD2)
  have "Bucket_Index [ [1] ] (map (\<lambda>v. - 1 * v) [1 / 2]) (- 1) [ [1 / 100] ] ! 0 ! 0
          = astype_int16 \<lfloor>dot ([ [1] ] ! 0) ([ [1 / 100] ] ! 0) / (- 1) + [1 / 2] ! 0\<rfloor>"
    by (rule T1 [THEN conjunct2, THEN conjunct2, THEN conjunct2, THEN mp,
          OF conjI [OF g(1) conjI [OF g(2) conjI [OF g(3) g(4)]]]])
  then have val: "Bucket_Index [ [1] ] (map (\<lambda>v. - 1 * v) [1 / 2]) (- 1) [ [1 / 100] ] ! 0 ! 0 = 0"
    by (simp only: v)
  show ?thesis
    using l t n c0 c1 r1 r0 ids val by blast
qed

text \<open>
  Claim C8.  When \<open>ST\<close> is greater than \<open>L\<close>, no count of agreeing tables reaches
  \<open>ST\<close> (a count is at most the number of tables), no scan over \<open>L\<close> tables flags a
  sample, the list of flagged samples stays empty and \<open>_fit\<close> returns the full index
  range.
\<close>

theorem drlsh_threshold_above_tables:
  assumes "int (L self) < ST self"
  shows "(\<forall>c\<in>set (Number_of_Common_Buckets (fst (snd (hash_tables lib self))) cur n).
            int c < ST self)
       \<and> (\<forall>s. length (Bucket_Index_Decimal_All_Class s) = L self
              \<longrightarrow> Removed_Samples_Current (ST self) s = [])
       \<and> flagged lib self = []
       \<and> fst (DRLSH_fit lib g self) = map int [0..<length (X self)]"
proof -
  have a: "int c < ST self"
    if "c \<in> set (Number_of_Common_Buckets (fst (snd (hash_tables lib self))) cur n)" for c
    using counts_bound [OF that] assms by (simp add: hash_tables_length)
  have b: "Removed_Samples_Current (ST self) s = []"
    if "length (Bucket_Index_Decimal_All_Class s) = L self" for s
    using assms that by (intro Removed_Samples_Current_empty) simp
  have c: "flagged lib self = []" using assms by (rule flagged_nothing)
  have d: "fst (DRLSH_fit lib g self) = map int [0..<length (X self)]"
    by (simp add: DRLSH_fit_selected c np_unique_def)
  show ?thesis using a b c d by blast
qed

text \<open>The theorem at a concrete input.\<close>

theorem drlsh_threshold_above_tables_witness:
  "int (L (example_drlsh\<lparr>ST := 2\<rparr>)) < ST (example_drlsh\<lparr>ST := 2\<rparr>)
   \<and> flagged example_library (example_drlsh\<lparr>ST := 2\<rparr>) = []
   \<and> fst (DRLSH_fit example_library 0 (example_drlsh\<lparr>ST := 2\<rparr>))
       = map int [0..<length (X (example_drlsh\<lparr>ST := 2\<rparr>))]
   \<and> fst (DRLSH_fit example_library 0 (example_drlsh\<lparr>ST := 2\<rparr>)) = [0, 1, 2]"
proof -
  have h: "int (L (example_drlsh\<lparr>ST := 2\<rparr>)) < ST (example_drlsh\<lparr>ST := 2\<rparr>)"
    by (simp add: example_drlsh_def)
  have e: "map int [0..<length (X (example_drlsh\<lparr>ST := 2\<rparr>))] = [0, 1, 2]"
    by code_simp
  from drlsh_threshold_above_tables
         [OF h, where lib = example_library and cur = "[]" and n = 0 and g = 0] h e
  show ?thesis by simp
qed

text \<open>
  Claim C9.  Every step of the scan, the restart of the window included, every scan of a
  class and every sequence of scans only appends to the list of flagged samples, and no
  flagged sample is in the selection that \<open>_fit\<close> returns.
\<close>

theorem drlsh_flagged_only_grows:
  "(\<exists>new. Removed_Samples_Index_ALL (scan_step TRS thr s) = Removed_Samples_Index_ALL s @ new)
   \<and> Removed_Samples_Index_ALL (restart TRS s) = Removed_Samples_Index_ALL s
   \<and> (\<exists>new. Removed_Samples_Index_ALL (scan_loop TRS thr s) = Removed_Samples_Index_ALL s @ new)
   \<and> (\<exists>new. class_scan N thr B labels classID removed = removed @ new)
   \<and> set (flagged lib self) \<inter> set (fst (DRLSH_fit lib g self)) = {}"
  using scan_loop_removed [of TRS thr s] class_scan_removed [of N thr B labels classID removed]
    DRLSH_fit_excludes_flagged [where lib = lib and self = self and g = g]
  by (auto simp: scan_step_removed)

text \<open>The theorem at a concrete input.\<close>

theorem drlsh_flagged_only_grows_witness:
  "flagged example_library example_drlsh = [1]
   \<and> fst (DRLSH_fit example_library 0 example_drlsh) = [0, 2]
   \<and> (\<exists>new. class_scan 3 1 [ [0, 0, 1] ] [0, 0, 1 :: nat] 1 [1] = [1] @ new)
   \<and> set (flagged example_library example_drlsh)
       \<inter> set (fst (DRLSH_fit example_library 0 example_drlsh)) = {}"
proof -
  have f: "flagged example_library example_drlsh = [1]" by code_simp
  have e: "fst (DRLSH_fit example_library 0 example_drlsh) = [0, 2]" by code_simp
  from drlsh_flagged_only_grows
         [where lib = example_library and self = example_drlsh and g = 0 and TRS = 4 and thr = 1
            and s = "class_start 3 [ [0, 0, 1] ] [0, 0, 1 :: nat] [] 0" and N = 3
            and B = "[ [0, 0, 1] ]" and labels = "[0, 0, 1 :: nat]" and classID = 1
            and removed = "[1]"]
  show ?thesis using f e by blast
qed

text \<open>
  Claim C10.  Over the set that ICF's \<open>_fit\<close> returns, recomputed from scratch, no instance
  has a reachability above its coverage: one more pass over it removes nothing.
\<close>

theorem icf_result_fixed_point:
  "(\<forall>i<length (ICF_fit ENN_fit self).
       \<not> reachability_count self (ICF_fit ENN_fit self) i
           > coverage_count self (ICF_fit ENN_fit self) i)
   \<and> snd (fit_pass self (ICF_fit ENN_fit self)) = (ICF_fit ENN_fit self, False)"
proof -
  let ?R = "ICF_fit ENN_fit self"
  have fp: "\<forall>i<length ?R. \<not> removed_in_pass self ?R i"
    unfolding ICF_fit_def Let_def using fit_loop_fixed_point by blast
  then have "filter (\<lambda>i. \<not> removed_in_pass self ?R i) [0..<length ?R] = [0..<length ?R]"
    by (intro filter_True) auto
  then have "snd (fit_pass self ?R) = (?R, False)"
    using fp by (simp add: fit_pass_eq map_nth)
  then show ?thesis
    using fp by (simp add: removed_in_pass_def)
qed

text \<open>The theorem at a concrete input.\<close>

theorem icf_result_fixed_point_witness:
  "ICF_fit keep_all example_icf = [1, 2, 3]
   \<and> 0 < length (ICF_fit keep_all example_icf)
   \<and> \<not> reachability_count example_icf (ICF_fit keep_all example_icf) 0
         > coverage_count example_icf (ICF_fit keep_all example_icf) 0
   \<and> snd (fit_pass example_icf (ICF_fit keep_all example_icf)) = (ICF_fit keep_all example_icf, False)"
proof -
  have e: "ICF_fit keep_all example_icf = [1, 2, 3]" by code_simp
  then have l: "0 < length (ICF_fit keep_all example_icf)" by simp
  show ?thesis
    using icf_result_fixed_point [of keep_all example_icf] e l by blast
qed

end
